theory Spec2Isabelle
  imports Complex_Main "HOL-Library.Monad_Syntax" "HOL-Library.AList"
begin

section \<open>Pinocchio: skeleton construction and compression (skeleton.cpp)\<close>

text \<open>
  The embedding follows \<^verbatim>\<open>src/Pinocchio/skeleton.cpp\<close>. C++ \<^verbatim>\<open>int\<close> values (joint
  indices, with \<open>-1\<close> for "absent") are \<^typ>\<open>int\<close>; no index of a skeleton comes near the
  range of a 32-bit integer, so wrap-around is not modelled. The \<^verbatim>\<open>double\<close> values that a
  skeleton stores are finite and are \<^typ>\<open>real\<close>; the arithmetic of \<open>initCompressed\<close> is
  exact real arithmetic (rounding is outside the model), and the products of \<open>scale\<close> and
  \<open>FileSkeleton\<close>, which can leave the finite numbers, are modelled further below. A
  \<^verbatim>\<open>std::vector\<close> is a list. Reading or writing a vector outside its bounds is undefined behaviour in C++; the
  model makes it the value \<open>None\<close>, so every function that indexes a vector returns an
  \<open>option\<close>.
\<close>

subsection \<open>Vectors of three doubles\<close>

text \<open>
  Modelled from the spec: \<^verbatim>\<open>PVector3\<close> (vector.h is not part of the sources at hand). The
  spec calls it a 3D point with Euclidean length; the operations used by skeleton.cpp are
  the difference of two points, the product with a scalar, and \<^verbatim>\<open>length()\<close>.
\<close>

datatype vec3 = Vec3 real real real

fun vsub :: "vec3 \<Rightarrow> vec3 \<Rightarrow> vec3" where
  "vsub (Vec3 a b c) (Vec3 x y z) = Vec3 (a - x) (b - y) (c - z)"

fun vadd :: "vec3 \<Rightarrow> vec3 \<Rightarrow> vec3" where
  "vadd (Vec3 a b c) (Vec3 x y z) = Vec3 (a + x) (b + y) (c + z)"

fun vscale :: "vec3 \<Rightarrow> real \<Rightarrow> vec3" where
  "vscale (Vec3 a b c) f = Vec3 (a * f) (b * f) (c * f)"

fun vdot :: "vec3 \<Rightarrow> vec3 \<Rightarrow> real" where
  "vdot (Vec3 a b c) (Vec3 x y z) = a * x + b * y + c * z"

definition vlength :: "vec3 \<Rightarrow> real" where
  "vlength v = sqrt (vdot v v)"

subsection \<open>Vector access\<close>

definition vget :: "'a list \<Rightarrow> int \<Rightarrow> 'a option" where
  "vget xs i = (if 0 \<le> i \<and> i < int (length xs) then Some (xs ! nat i) else None)"

definition vput :: "'a list \<Rightarrow> int \<Rightarrow> 'a \<Rightarrow> 'a list option" where
  "vput xs i v = (if 0 \<le> i \<and> i < int (length xs) then Some (xs[nat i := v]) else None)"

text \<open>\<^verbatim>\<open>v.resize(n, x)\<close>: cut to \<open>n\<close> elements, or fill up with copies of \<open>x\<close>.\<close>

definition resize :: "'a list \<Rightarrow> nat \<Rightarrow> 'a \<Rightarrow> 'a list" where
  "resize xs n x = take n xs @ replicate (n - length xs) x"

text \<open>
  A counting \<^verbatim>\<open>for\<close> loop whose bound the body does not change: the body is run for each
  index in turn, and the first undefined access ends the run.
\<close>

primrec forM :: "'i list \<Rightarrow> ('i \<Rightarrow> 's \<Rightarrow> 's option) \<Rightarrow> 's \<Rightarrow> 's option" where
  "forM [] body s = Some s"
| "forM (i # is) body s = (case body i s of None \<Rightarrow> None | Some s' \<Rightarrow> forM is body s')"

subsection \<open>The skeleton\<close>

text \<open>
  \<^verbatim>\<open>PtGraph\<close> has the members \<^verbatim>\<open>verts\<close> and \<^verbatim>\<open>edges\<close>. The members of \<^verbatim>\<open>Skeleton\<close> keep
  their names. \<^verbatim>\<open>jointNames\<close> is the name registry; \<^verbatim>\<open>jointNames[k]\<close> on a standard
  associative container yields the stored index, and for a key that is not present it
  inserts the key with the value-initialised index \<open>0\<close> and yields that.
\<close>

record ptgraph =
  verts :: "vec3 list"
  edges :: "int list list"

record skeleton =
  fGraphV :: ptgraph
  fPrevV :: "int list"
  fSymV :: "int list"
  cGraphV :: ptgraph
  cPrevV :: "int list"
  cSymV :: "int list"
  cFeetV :: "bool list"
  cFatV :: "bool list"
  fcMapV :: "int list"
  cfMapV :: "int list"
  fcFractionV :: "real list"
  cLengthV :: "real list"
  jointNames :: "string \<rightharpoonup> int"

definition emptySkeleton :: skeleton where
  "emptySkeleton =
     \<lparr>fGraphV = \<lparr>verts = [], edges = []\<rparr>, fPrevV = [], fSymV = [],
      cGraphV = \<lparr>verts = [], edges = []\<rparr>, cPrevV = [], cSymV = [],
      cFeetV = [], cFatV = [], fcMapV = [], cfMapV = [],
      fcFractionV = [], cLengthV = [], jointNames = Map.empty\<rparr>"

definition lookupName :: "(string \<rightharpoonup> int) \<Rightarrow> string \<Rightarrow> int \<times> (string \<rightharpoonup> int)" where
  "lookupName m k = (case m k of Some i \<Rightarrow> (i, m) | None \<Rightarrow> (0, m(k \<mapsto> 0)))"

subsection \<open>makeJoint and makeSymmetric\<close>

definition makeJoint :: "string \<Rightarrow> vec3 \<Rightarrow> string \<Rightarrow> skeleton \<Rightarrow> skeleton option" where
  "makeJoint name pos previous s =
     (let cur = int (length (fSymV s));
          s1 = s\<lparr>fSymV := fSymV s @ [-1]\<rparr>;
          s2 = s1\<lparr>fGraphV := (fGraphV s1)\<lparr>verts := verts (fGraphV s1) @ [vscale pos 0.5]\<rparr>\<rparr>;
          s3 = s2\<lparr>fGraphV := (fGraphV s2)\<lparr>edges := resize (edges (fGraphV s2)) (nat (cur + 1)) []\<rparr>\<rparr>;
          s4 = s3\<lparr>jointNames := (jointNames s3)(name \<mapsto> cur)\<rparr>
      in if previous = [] then Some (s4\<lparr>fPrevV := fPrevV s4 @ [-1]\<rparr>)
         else
           (let (prev, names) = lookupName (jointNames s4) previous;
                s5 = s4\<lparr>jointNames := names\<rparr>
            in do {
              ec \<leftarrow> vget (edges (fGraphV s5)) cur;
              es1 \<leftarrow> vput (edges (fGraphV s5)) cur (ec @ [prev]);
              ep \<leftarrow> vget es1 prev;
              es2 \<leftarrow> vput es1 prev (ep @ [cur]);
              Some (s5\<lparr>fGraphV := (fGraphV s5)\<lparr>edges := es2\<rparr>, fPrevV := fPrevV s5 @ [prev]\<rparr>)
            }))"

definition makeSymmetric :: "string \<Rightarrow> string \<Rightarrow> skeleton \<Rightarrow> skeleton option" where
  "makeSymmetric name1 name2 s =
     (let (i1, names1) = lookupName (jointNames s) name1;
          (i2, names2) = lookupName names1 name2;
          (j1, j2) = (if i1 > i2 then (i2, i1) else (i1, i2))
      in do {
        sym \<leftarrow> vput (fSymV s) j2 j1;
        Some (s\<lparr>jointNames := names2, fSymV := sym\<rparr>)
      })"

subsection \<open>initCompressed\<close>

text \<open>The first loop: the retained joints get their compressed indices.\<close>

definition mapStep :: "nat \<Rightarrow> skeleton \<Rightarrow> skeleton option" where
  "mapStep i s = do {
     es \<leftarrow> vget (edges (fGraphV s)) (int i);
     if length es = 2 \<and> i \<noteq> 0 then Some s
     else do {
       fc \<leftarrow> vput (fcMapV s) (int i) (int (length (cfMapV s)));
       Some (s\<lparr>fcMapV := fc, cfMapV := cfMapV s @ [int i]\<rparr>)
     }
   }"

text \<open>\<^verbatim>\<open>while(fcMapV[curPrev] < 0) curPrev = fPrevV[curPrev];\<close>\<close>

partial_function (option) walkPrev :: "int list \<Rightarrow> int list \<Rightarrow> int \<Rightarrow> int option" where
  "walkPrev fcMap fPrev curPrev = do {
     m \<leftarrow> vget fcMap curPrev;
     if m < 0 then do { p \<leftarrow> vget fPrev curPrev; walkPrev fcMap fPrev p }
     else Some curPrev
   }"

text \<open>The second loop: positions, symmetry and parents of the compressed joints.\<close>

definition compStep :: "nat \<Rightarrow> skeleton \<Rightarrow> skeleton option" where
  "compStep i s = do {
     ci \<leftarrow> vget (cfMapV s) (int i);
     v \<leftarrow> vget (verts (fGraphV s)) ci;
     let s1 = s\<lparr>cGraphV := (cGraphV s)\<lparr>verts := verts (cGraphV s) @ [v]\<rparr>\<rparr>;
     sy \<leftarrow> vget (fSymV s1) ci;
     s2 \<leftarrow> (if sy \<ge> 0 then do {
              m \<leftarrow> vget (fcMapV s1) sy;
              cs \<leftarrow> vput (cSymV s1) (int i) m;
              Some (s1\<lparr>cSymV := cs\<rparr>)
            } else Some s1);
     if i > 0 then do {
       p \<leftarrow> vget (fPrevV s2) ci;
       curPrev \<leftarrow> walkPrev (fcMapV s2) (fPrevV s2) p;
       m \<leftarrow> vget (fcMapV s2) curPrev;
       cp \<leftarrow> vput (cPrevV s2) (int i) m;
       Some (s2\<lparr>cPrevV := cp\<rparr>)
     } else Some s2
   }"

text \<open>The third loop: the edges of the compressed graph.\<close>

definition edgeStep :: "nat \<Rightarrow> skeleton \<Rightarrow> skeleton option" where
  "edgeStep i s = do {
     p \<leftarrow> vget (cPrevV s) (int i);
     ei \<leftarrow> vget (edges (cGraphV s)) (int i);
     es1 \<leftarrow> vput (edges (cGraphV s)) (int i) (ei @ [p]);
     p' \<leftarrow> vget (cPrevV s) (int i);
     ep \<leftarrow> vget es1 p';
     es2 \<leftarrow> vput es1 p' (ep @ [int i]);
     Some (s\<lparr>cGraphV := (cGraphV s)\<lparr>edges := es2\<rparr>\<rparr>)
   }"

text \<open>
  The \<^verbatim>\<open>do ... while(fcMapV[cur] == -1)\<close> loop of the length computation. The
  \<^verbatim>\<open>hash_map<int, double> lengths\<close> is an association list; \<^verbatim>\<open>lengths[cur] = x\<close> is
  \<open>AList.update\<close> and reading \<^verbatim>\<open>lengths[cur]\<close> is \<open>map_of\<close>.
\<close>

partial_function (option) lenWalk ::
    "int \<Rightarrow> int \<Rightarrow> (int \<times> real) list \<Rightarrow> skeleton \<Rightarrow> ((int \<times> real) list \<times> skeleton) option" where
  "lenWalk i cur lengths s = do {
     v \<leftarrow> vget (verts (fGraphV s)) cur;
     p \<leftarrow> vget (fPrevV s) cur;
     pv \<leftarrow> vget (verts (fGraphV s)) p;
     l \<leftarrow> map_of (AList.update cur (vlength (vsub v pv)) lengths) cur;
     cl \<leftarrow> vget (cLengthV s) i;
     cls \<leftarrow> vput (cLengthV s) i (cl + l);
     m \<leftarrow> vget (fcMapV s) p;
     if m = -1
     then lenWalk i p (AList.update cur (vlength (vsub v pv)) lengths) (s\<lparr>cLengthV := cls\<rparr>)
     else Some (AList.update cur (vlength (vsub v pv)) lengths, s\<lparr>cLengthV := cls\<rparr>)
   }"

text \<open>
  The loop over the entries of \<^verbatim>\<open>lengths\<close>. A hash map is iterated in an order the
  program does not control; the keys are distinct, every entry writes a different element
  of \<^verbatim>\<open>fcFractionV\<close>, and the model takes the entries in the order of the list.
\<close>

definition fracStep :: "int \<Rightarrow> int \<times> real \<Rightarrow> skeleton \<Rightarrow> skeleton option" where
  "fracStep i it s = do {
     cl \<leftarrow> vget (cLengthV s) i;
     fr \<leftarrow> vput (fcFractionV s) (fst it) (snd it / cl);
     Some (s\<lparr>fcFractionV := fr\<rparr>)
   }"

definition lenStep :: "nat \<Rightarrow> skeleton \<Rightarrow> skeleton option" where
  "lenStep i s = do {
     cur \<leftarrow> vget (cfMapV s) (int i);
     (lengths, s') \<leftarrow> lenWalk (int i) cur [] s;
     forM lengths (fracStep (int i)) s'
   }"

definition initCompressed :: "skeleton \<Rightarrow> skeleton option" where
  "initCompressed s =
     (let s1 = s\<lparr>fcMapV := resize (fcMapV s) (length (fPrevV s)) (-1),
                 fcFractionV := resize (fcFractionV s) (length (fPrevV s)) (-1)\<rparr>
      in do {
        s2 \<leftarrow> forM [0..<length (fPrevV s1)] mapStep s1;
        let s3 = s2\<lparr>cPrevV := resize (cPrevV s2) (length (cfMapV s2)) (-1),
                    cSymV := resize (cSymV s2) (length (cfMapV s2)) (-1),
                    cGraphV := (cGraphV s2)\<lparr>edges := resize (edges (cGraphV s2)) (length (cfMapV s2)) []\<rparr>\<rparr>;
        let s4 = s3\<lparr>cFeetV := replicate (length (cPrevV s3)) False,
                    cFatV := replicate (length (cPrevV s3)) False\<rparr>;
        s5 \<leftarrow> forM [0..<length (cfMapV s4)] compStep s4;
        s6 \<leftarrow> forM [1..<length (cPrevV s5)] edgeStep s5;
        let s7 = s6\<lparr>cLengthV := resize (cLengthV s6) (length (cPrevV s6)) 0\<rparr>;
        forM [1..<length (cPrevV s7)] lenStep s7
      })"

subsection \<open>Double arithmetic that can leave the finite numbers\<close>

text \<open>
  The values of a C++ \<^verbatim>\<open>double\<close> are the finite numbers, the two infinities and NaN.
  \<open>dmul\<close> and \<open>ddiv\<close> are the product and the quotient of two doubles. A finite result
  is kept as the exact real number: rounding to the nearest double and the sign of a zero
  are outside the model. A result whose magnitude reaches \<open>2^1024 - 2^970\<close>, from where
  rounding to nearest gives an infinity, is an infinity; a number other than zero divided
  by zero is an infinity, and zero times an infinity, zero divided by zero and an infinity
  divided by an infinity are NaN.

  The vectors of a skeleton hold finite values. Where the program stores an infinity or a
  NaN and goes on, the model ends the run with the fault \<open>NotFinite\<close>; the fault
  \<open>Undefined\<close> stands for an undefined vector access or a loop that does not return, the
  value \<open>None\<close> of the functions above.
\<close>

datatype double = Finite real | PosInf | NegInf | NaN

definition dblOverflow :: real where
  "dblOverflow = 2 ^ 1024 - 2 ^ 970"

definition toDouble :: "real \<Rightarrow> double" where
  "toDouble r = (if \<bar>r\<bar> < dblOverflow then Finite r else if 0 < r then PosInf else NegInf)"

definition signedInf :: "bool \<Rightarrow> double" where
  "signedInf positive = (if positive then PosInf else NegInf)"

fun dmul :: "double \<Rightarrow> double \<Rightarrow> double" where
  "dmul (Finite a) (Finite b) = toDouble (a * b)"
| "dmul (Finite a) PosInf = (if a = 0 then NaN else signedInf (0 < a))"
| "dmul (Finite a) NegInf = (if a = 0 then NaN else signedInf (a < 0))"
| "dmul PosInf (Finite b) = (if b = 0 then NaN else signedInf (0 < b))"
| "dmul NegInf (Finite b) = (if b = 0 then NaN else signedInf (b < 0))"
| "dmul PosInf PosInf = PosInf"
| "dmul PosInf NegInf = NegInf"
| "dmul NegInf PosInf = NegInf"
| "dmul NegInf NegInf = PosInf"
| "dmul NaN y = NaN"
| "dmul x NaN = NaN"


datatype fault = Undefined | NotFinite

definition orUndefined :: "'a option \<Rightarrow> fault + 'a" where
  "orUndefined x = (case x of None \<Rightarrow> Inl Undefined | Some y \<Rightarrow> Inr y)"

definition stored :: "double \<Rightarrow> fault + real" where
  "stored d = (case d of Finite r \<Rightarrow> Inr r | PosInf \<Rightarrow> Inl NotFinite
                | NegInf \<Rightarrow> Inl NotFinite | NaN \<Rightarrow> Inl NotFinite)"

definition bindE :: "fault + 'a \<Rightarrow> ('a \<Rightarrow> fault + 'b) \<Rightarrow> fault + 'b" where
  "bindE x f = (case x of Inl e \<Rightarrow> Inl e | Inr y \<Rightarrow> f y)"

primrec forE :: "'i list \<Rightarrow> ('i \<Rightarrow> 's \<Rightarrow> fault + 's) \<Rightarrow> 's \<Rightarrow> fault + 's" where
  "forE [] body s = Inr s"
| "forE (i # is) body s = bindE (body i s) (forE is body)"


subsection \<open>scale\<close>










subsection \<open>FileSkeleton\<close>

text \<open>
  The constructor reads the file through \<^verbatim>\<open>readWords\<close> (utils.h) and \<^verbatim>\<open>sscanf\<close>, neither of
  which is part of the sources at hand. The stream is therefore given as \<open>None\<close> when the
  file cannot be opened and otherwise as the list of word lists that the successive calls
  of \<^verbatim>\<open>readWords\<close> return. The conversion \<^verbatim>\<open>sscanf(w, "%lf", &x)\<close> is the parameter
  \<open>scan\<close>, which yields a double when it succeeds; when it fails the coordinate keeps the
  value of the default-constructed \<^verbatim>\<open>PVector3\<close>, taken to be zero. \<open>timesTwo\<close> is
  \<^verbatim>\<open>p * 2.\<close>, the argument passed to \<open>makeJoint\<close>. The diagnostic channel
  \<^verbatim>\<open>Debugging::out()\<close> is the list of lines written to it.
\<close>

definition scanCoord :: "(string \<Rightarrow> double option) \<Rightarrow> string \<Rightarrow> double" where
  "scanCoord scan w = (case scan w of Some x \<Rightarrow> x | None \<Rightarrow> Finite 0)"

definition timesTwo :: "double \<Rightarrow> double \<Rightarrow> double \<Rightarrow> fault + vec3" where
  "timesTwo x y z =
     bindE (stored (dmul x (Finite 2))) (\<lambda>a.
     bindE (stored (dmul y (Finite 2))) (\<lambda>b.
     bindE (stored (dmul z (Finite 2))) (\<lambda>c. Inr (Vec3 a b c))))"

definition readJoint ::
    "(string \<Rightarrow> double option) \<Rightarrow> string list \<Rightarrow> skeleton \<Rightarrow> fault + skeleton" where
  "readJoint scan line s =
     (if length line < 5 then Inr s
      else
        (let line4 = (if line ! 4 = ''-1'' then [] else line ! 4)
         in bindE (timesTwo (scanCoord scan (line ! 1)) (scanCoord scan (line ! 2))
                     (scanCoord scan (line ! 3)))
              (\<lambda>q. orUndefined (makeJoint (line ! 0) q line4 s))))"

definition FileSkeleton ::
    "(string \<Rightarrow> double option) \<Rightarrow> string \<Rightarrow> string list list option
      \<Rightarrow> (fault + skeleton) \<times> string list" where
  "FileSkeleton scan filename strm =
     (case strm of
        None \<Rightarrow> (Inr emptySkeleton, [''Error opening file '' @ filename])
      | Some lines \<Rightarrow>
          (bindE (forE lines (readJoint scan) emptySkeleton) (\<lambda>s. orUndefined (initCompressed s)),
           []))"





subsection \<open>A small skeleton to run the functions on\<close>

text \<open>
  Five joints: the root \<open>a\<close> with the two legs \<open>a - b - c\<close> and \<open>a - d - e\<close>; the leaves
  \<open>c\<close> and \<open>e\<close> are marked symmetric. \<open>ySkeleton\<close> is the state after the construction
  calls, \<open>yCompressed\<close> the state after \<open>initCompressed\<close>.
\<close>

definition ySkeleton :: skeleton where
  "ySkeleton =
     \<lparr>fGraphV = \<lparr>verts = [Vec3 0 0 0, Vec3 1 0 0, Vec3 3 0 0, Vec3 0 1 0, Vec3 0 3 0],
                 edges = [[1, 3], [0, 2], [1], [0, 4], [3]]\<rparr>,
      fPrevV = [-1, 0, 1, 0, 3], fSymV = [-1, -1, -1, -1, 2],
      cGraphV = \<lparr>verts = [], edges = []\<rparr>, cPrevV = [], cSymV = [],
      cFeetV = [], cFatV = [], fcMapV = [], cfMapV = [],
      fcFractionV = [], cLengthV = [],
      jointNames = [''a'' \<mapsto> 0, ''b'' \<mapsto> 1, ''c'' \<mapsto> 2, ''d'' \<mapsto> 3, ''e'' \<mapsto> 4]\<rparr>"

definition yCompressed :: skeleton where
  "yCompressed = ySkeleton
     \<lparr>cGraphV := \<lparr>verts = [Vec3 0 0 0, Vec3 3 0 0, Vec3 0 3 0], edges = [[1, 2], [0], [0]]\<rparr>,
      cPrevV := [-1, 0, 0], cSymV := [-1, -1, 1],
      cFeetV := [False, False, False], cFatV := [False, False, False],
      fcMapV := [0, -1, 1, -1, 2], cfMapV := [0, 2, 4],
      fcFractionV := [-1, 1/3, 2/3, 1/3, 2/3], cLengthV := [0, 3, 3]\<rparr>"

subsection \<open>The name registry stays inside the skeleton\<close>

text \<open>Every registered index is the index of a joint.\<close>

definition namesOk :: "skeleton \<Rightarrow> bool" where
  "namesOk s \<longleftrightarrow> (\<forall>k i. jointNames s k = Some i \<longrightarrow> 0 \<le> i \<and> i < int (length (fSymV s)))"





subsection \<open>Notions for the statements about initCompressed\<close>

text \<open>
  The test of the first loop of \<open>initCompressed\<close>, negated: a joint is skipped when its
  list of edges has size 2 and it is not joint 0, and is retained otherwise. \<open>fcMapOf\<close> is
  the compressed index that a linear scan gives a retained joint: the number of retained
  joints before it.
\<close>

definition retained :: "skeleton \<Rightarrow> nat \<Rightarrow> bool" where
  "retained s i \<longleftrightarrow> i = 0 \<or> length (edges (fGraphV s) ! i) \<noteq> 2"

definition fcMapOf :: "skeleton \<Rightarrow> nat \<Rightarrow> int" where
  "fcMapOf s i = (if retained s i then int (length (filter (retained s) [0..<i])) else -1)"

text \<open>
  \<open>up fp k c\<close> is the joint reached from \<open>c\<close> by \<open>k\<close> steps along the parent list,
  \<open>segLen vs fp c\<close> the Euclidean length of the segment between joint \<open>c\<close> and its parent,
  and \<open>parentsOk\<close> says that every joint but the first names an earlier joint as its parent,
  as construction in order of insertion gives.
\<close>

fun up :: "int list \<Rightarrow> nat \<Rightarrow> int \<Rightarrow> int" where
  "up fp 0 c = c"
| "up fp (Suc k) c = up fp k (fp ! nat c)"

definition segLen :: "vec3 list \<Rightarrow> int list \<Rightarrow> int \<Rightarrow> real" where
  "segLen vs fp c = vlength (vsub (vs ! nat c) (vs ! nat (fp ! nat c)))"

definition parentsOk :: "int list \<Rightarrow> bool" where
  "parentsOk fp \<longleftrightarrow> (\<forall>i < length fp. 0 < i \<longrightarrow> 0 \<le> fp ! i \<and> fp ! i < int i)"

text \<open>
  \<open>chainUp fp fc cur k\<close>: walking up from \<open>cur\<close>, the first \<open>k - 1\<close> proper ancestors have
  no compressed index and the \<open>k\<close>-th has one. \<open>chainKeys\<close> are the joints of the walk below
  that ancestor and \<open>chainSum\<close> is the sum of the lengths of their segments.
\<close>

definition chainUp :: "int list \<Rightarrow> int list \<Rightarrow> int \<Rightarrow> nat \<Rightarrow> bool" where
  "chainUp fp fc cur k \<longleftrightarrow>
     1 \<le> k
     \<and> (\<forall>u<k. 0 < up fp u cur \<and> up fp u cur \<le> cur \<and> (1 \<le> u \<longrightarrow> fc ! nat (up fp u cur) = -1))
     \<and> 0 \<le> up fp k cur \<and> up fp k cur < cur \<and> 0 \<le> fc ! nat (up fp k cur)"

definition chainKeys :: "int list \<Rightarrow> int \<Rightarrow> nat \<Rightarrow> int set" where
  "chainKeys fp cur k = (\<lambda>u. up fp u cur) ` {..<k}"

definition chainSum :: "vec3 list \<Rightarrow> int list \<Rightarrow> int \<Rightarrow> nat \<Rightarrow> real" where
  "chainSum vs fp cur k = (\<Sum>u<k. segLen vs fp (up fp u cur))"

text \<open>
  A skeleton as the construction calls leave it before \<open>initCompressed\<close>: one position,
  one edge list, one symmetry entry and one parent entry per joint, parents earlier than
  their children, symmetry entries inside the skeleton, and nothing compressed yet.
  \<open>fcMapAll\<close> and \<open>cfMapAll\<close> are the two index maps of the whole skeleton, and
  \<open>mapped\<close> is the state after the first loop and the resizing that follows it.
\<close>

definition treeSkeleton :: "skeleton \<Rightarrow> bool" where
  "treeSkeleton s \<longleftrightarrow>
     length (verts (fGraphV s)) = length (fPrevV s)
   \<and> length (edges (fGraphV s)) = length (fPrevV s)
   \<and> length (fSymV s) = length (fPrevV s)
   \<and> parentsOk (fPrevV s)
   \<and> (\<forall>i < length (fSymV s). fSymV s ! i < int (length (fPrevV s)))
   \<and> fcMapV s = [] \<and> cfMapV s = [] \<and> fcFractionV s = [] \<and> cLengthV s = []
   \<and> cPrevV s = [] \<and> cSymV s = [] \<and> verts (cGraphV s) = [] \<and> edges (cGraphV s) = []"

definition fcMapAll :: "skeleton \<Rightarrow> int list" where
  "fcMapAll s = map (fcMapOf s) [0..<length (fPrevV s)]"

definition cfMapAll :: "skeleton \<Rightarrow> int list" where
  "cfMapAll s = map int (filter (retained s) [0..<length (fPrevV s)])"

definition mapped :: "skeleton \<Rightarrow> skeleton" where
  "mapped s = s
     \<lparr>fcMapV := fcMapAll s,
      fcFractionV := replicate (length (fPrevV s)) (-1),
      cfMapV := cfMapAll s,
      cPrevV := replicate (length (cfMapAll s)) (-1),
      cSymV := replicate (length (cfMapAll s)) (-1),
      cGraphV := \<lparr>verts = [], edges = replicate (length (cfMapAll s)) []\<rparr>,
      cFeetV := replicate (length (cfMapAll s)) False,
      cFatV := replicate (length (cfMapAll s)) False\<rparr>"

text \<open>
  The invariants of the loops of \<open>initCompressed\<close>. \<open>prevOk s j p\<close>: \<open>p\<close> is the compressed
  index of the first ancestor of the \<open>j\<close>-th retained joint that has one.
\<close>

definition prevOk :: "skeleton \<Rightarrow> nat \<Rightarrow> int \<Rightarrow> bool" where
  "prevOk s j p \<longleftrightarrow>
     (\<exists>k. chainUp (fPrevV s) (fcMapAll s) (cfMapAll s ! j) k
        \<and> p = fcMapAll s ! nat (up (fPrevV s) k (cfMapAll s ! j)))"

definition compInv :: "skeleton \<Rightarrow> nat \<Rightarrow> skeleton \<Rightarrow> bool" where
  "compInv s i t \<longleftrightarrow>
     fGraphV t = fGraphV s \<and> fPrevV t = fPrevV s \<and> fSymV t = fSymV s
   \<and> fcMapV t = fcMapAll s \<and> cfMapV t = cfMapAll s
   \<and> fcFractionV t = replicate (length (fPrevV s)) (-1) \<and> cLengthV t = []
   \<and> length (cPrevV t) = length (cfMapAll s) \<and> length (cSymV t) = length (cfMapAll s)
   \<and> edges (cGraphV t) = replicate (length (cfMapAll s)) []
   \<and> length (verts (cGraphV t)) = i
   \<and> (\<forall>j<i. 0 < j \<longrightarrow> prevOk s j (cPrevV t ! j))"

definition compDone :: "skeleton \<Rightarrow> skeleton \<Rightarrow> bool" where
  "compDone s t \<longleftrightarrow>
     fGraphV t = fGraphV s \<and> fPrevV t = fPrevV s \<and> fSymV t = fSymV s
   \<and> fcMapV t = fcMapAll s \<and> cfMapV t = cfMapAll s
   \<and> length (cPrevV t) = length (cfMapAll s)
   \<and> (\<forall>j < length (cfMapAll s). 0 < j \<longrightarrow> prevOk s j (cPrevV t ! j))"

definition edgesDone :: "nat \<Rightarrow> skeleton \<Rightarrow> bool" where
  "edgesDone i t \<longleftrightarrow>
     length (edges (cGraphV t)) = length (cPrevV t)
   \<and> (\<forall>j<i. 0 < j \<longrightarrow> cPrevV t ! j \<in> set (edges (cGraphV t) ! j)
                    \<and> int j \<in> set (edges (cGraphV t) ! nat (cPrevV t ! j)))"

definition edgeInv :: "skeleton \<Rightarrow> nat \<Rightarrow> skeleton \<Rightarrow> bool" where
  "edgeInv s i t \<longleftrightarrow>
     compDone s t \<and> edgesDone i t
   \<and> fcFractionV t = replicate (length (fPrevV s)) (-1) \<and> cLengthV t = []"

definition lenOk :: "skeleton \<Rightarrow> skeleton \<Rightarrow> nat \<Rightarrow> bool" where
  "lenOk s t j \<longleftrightarrow>
     (\<exists>k. chainUp (fPrevV s) (fcMapAll s) (cfMapAll s ! j) k
        \<and> cLengthV t ! j = chainSum (verts (fGraphV s)) (fPrevV s) (cfMapAll s ! j) k)"

definition fracOk :: "skeleton \<Rightarrow> skeleton \<Rightarrow> nat \<Rightarrow> bool" where
  "fracOk s t j \<longleftrightarrow>
     (\<exists>k. chainUp (fPrevV s) (fcMapAll s) (cfMapAll s ! j) k
        \<and> (\<forall>x \<in> chainKeys (fPrevV s) (cfMapAll s ! j) k.
              fcFractionV t ! nat x = segLen (verts (fGraphV s)) (fPrevV s) x / cLengthV t ! j))"

definition chainsDisjoint :: "skeleton \<Rightarrow> bool" where
  "chainsDisjoint s \<longleftrightarrow>
     (\<forall>j j' k k'. j < length (cfMapAll s) \<and> j' < length (cfMapAll s) \<and> j \<noteq> j'
        \<and> chainUp (fPrevV s) (fcMapAll s) (cfMapAll s ! j) k
        \<and> chainUp (fPrevV s) (fcMapAll s) (cfMapAll s ! j') k'
        \<longrightarrow> chainKeys (fPrevV s) (cfMapAll s ! j) k \<inter> chainKeys (fPrevV s) (cfMapAll s ! j') k' = {})"

definition lenInv :: "skeleton \<Rightarrow> nat \<Rightarrow> skeleton \<Rightarrow> bool" where
  "lenInv s i t \<longleftrightarrow>
     compDone s t \<and> edgesDone (length (cfMapAll s)) t
   \<and> length (cLengthV t) = length (cfMapAll s)
   \<and> length (fcFractionV t) = length (fPrevV s)
   \<and> (\<forall>j. i \<le> j \<and> j < length (cfMapAll s) \<longrightarrow> cLengthV t ! j = 0)
   \<and> (\<forall>j<i. 0 < j \<longrightarrow> lenOk s t j)
   \<and> (chainsDisjoint s \<longrightarrow> (\<forall>j<i. 0 < j \<longrightarrow> fracOk s t j))"

text \<open>
  \<open>edgesFromParents\<close>: the edge list of a joint is its parent (for a joint other than the
  root) followed by its children in order of insertion, which is what \<open>makeJoint\<close> builds.
  \<open>nearestRetained s c k\<close>: the \<open>k\<close>-th ancestor of joint \<open>c\<close> is its nearest retained
  proper ancestor.
\<close>

definition edgesFromParents :: "skeleton \<Rightarrow> bool" where
  "edgesFromParents s \<longleftrightarrow>
     (\<forall>i < length (fPrevV s).
        edges (fGraphV s) ! i =
          (if i = 0 then [] else [fPrevV s ! i])
          @ map int (filter (\<lambda>c. 0 < c \<and> fPrevV s ! c = int i) [0..<length (fPrevV s)]))"

definition nearestRetained :: "skeleton \<Rightarrow> int \<Rightarrow> nat \<Rightarrow> bool" where
  "nearestRetained s c k \<longleftrightarrow>
     1 \<le> k
   \<and> (\<forall>u \<le> k. 0 \<le> up (fPrevV s) u c \<and> up (fPrevV s) u c < int (length (fPrevV s)))
   \<and> (\<forall>u. 1 \<le> u \<and> u < k \<longrightarrow> \<not> retained s (nat (up (fPrevV s) u c)))
   \<and> retained s (nat (up (fPrevV s) k c))"

subsection \<open>Intersector (intersector.h)\<close>

text \<open>
  Modelled from the spec: \<^verbatim>\<open>Intersector::intersect\<close>. Of the intersector only the class
  declaration (intersector.h) is among the sources; intersector.cpp, mesh.h and vecutils.h
  are missing. The record has the members of the declaration that the query reads.
  The query follows section 4.2 of the spec: the point is projected on the basis
  \<open>(v1, v2)\<close>; outside the bounding rectangle (its edges count as inside) the result is
  empty; otherwise the triangles listed in the grid cell of the projected point are
  tested, every valid hit is the point on the ray through the query point along \<open>dir\<close>,
  and the hits are sorted by signed distance along \<open>dir\<close> from the query point. The
  second component of the result is \<^verbatim>\<open>outIndices\<close>. What the spec leaves to the
  implementation enters as parameters: \<open>getIndex\<close> locates the grid cell of a projected
  point, \<open>inTriangle\<close> is the projected point-in-triangle test, and \<open>rayParam\<close> solves for
  the parameter of the hit along \<open>dir\<close> (\<open>None\<close> for a triangle that is skipped as
  parallel to \<open>dir\<close>). A cell index outside the grid gives \<open>None\<close>.
\<close>

type_synonym vec2 = "real \<times> real"

record rect2 =
  lo :: vec2
  hi :: vec2

definition rectContains :: "rect2 \<Rightarrow> vec2 \<Rightarrow> bool" where
  "rectContains r p \<longleftrightarrow>
     fst (lo r) \<le> fst p \<and> fst p \<le> fst (hi r) \<and> snd (lo r) \<le> snd p \<and> snd p \<le> snd (hi r)"

record intersector =
  dir :: vec3
  v1 :: vec3
  v2 :: vec3
  bounds :: rect2
  triangles :: "int list list"

definition signedDistance :: "vec3 \<Rightarrow> vec3 \<Rightarrow> vec3 \<Rightarrow> real" where
  "signedDistance d pt p = vdot (vsub p pt) d"

definition hitsOf ::
    "(int \<Rightarrow> vec2 \<Rightarrow> bool) \<Rightarrow> (int \<Rightarrow> vec3 \<Rightarrow> real option) \<Rightarrow> intersector \<Rightarrow> vec3
      \<Rightarrow> int list \<Rightarrow> (vec3 \<times> int) list" where
  "hitsOf inTriangle rayParam isec pt tris =
     concat (map (\<lambda>t. if inTriangle t (vdot pt (v1 isec), vdot pt (v2 isec))
                       then (case rayParam t pt of
                               None \<Rightarrow> []
                             | Some a \<Rightarrow> [(vadd pt (vscale (dir isec) a), t)])
                       else []) tris)"

definition intersect ::
    "(vec2 \<Rightarrow> int) \<Rightarrow> (int \<Rightarrow> vec2 \<Rightarrow> bool) \<Rightarrow> (int \<Rightarrow> vec3 \<Rightarrow> real option) \<Rightarrow> intersector
      \<Rightarrow> vec3 \<Rightarrow> (vec3 list \<times> int list) option" where
  "intersect getIndex inTriangle rayParam isec pt =
     (let pt2 = (vdot pt (v1 isec), vdot pt (v2 isec))
      in if \<not> rectContains (bounds isec) pt2 then Some ([], [])
         else do {
           tris \<leftarrow> vget (triangles isec) (getIndex pt2);
           let hits = sort_key (\<lambda>h. signedDistance (dir isec) pt (fst h))
                        (hitsOf inTriangle rayParam isec pt tris);
           Some (map fst hits, map snd hits)
         })"

text \<open>
  The cube of the spec's example, reduced to the two faces that the ray through
  \<open>(0, 0, -5)\<close> along \<open>(0, 0, 1)\<close> crosses: triangle 0 in the plane \<open>z = 0.5\<close> and triangle 3
  in the plane \<open>z = -0.5\<close>, both listed in the single grid cell, the far one first.
\<close>

definition cubeIntersector :: intersector where
  "cubeIntersector =
     \<lparr>dir = Vec3 0 0 1, v1 = Vec3 1 0 0, v2 = Vec3 0 1 0,
      bounds = \<lparr>lo = (-1/2, -1/2), hi = (1/2, 1/2)\<rparr>,
      triangles = [[0, 3]]\<rparr>"

fun zOf :: "vec3 \<Rightarrow> real" where
  "zOf (Vec3 x y z) = z"

definition cubeRayParam :: "int \<Rightarrow> vec3 \<Rightarrow> real option" where
  "cubeRayParam t pt = (if t = 0 then Some (1/2 - zOf pt) else if t = 3 then Some (-1/2 - zOf pt) else None)"

text \<open>
  \<open>built s\<close>: the skeleton is in the shape that a sequence of construction calls with
  registered parent names gives.
\<close>

definition built :: "skeleton \<Rightarrow> bool" where
  "built s \<longleftrightarrow> treeSkeleton s \<and> edgesFromParents s \<and> namesOk s"

subsection \<open>Notions for the statements about construction and reading\<close>

text \<open>
  \<open>registered s k\<close> is the index that the lookup \<^verbatim>\<open>jointNames[k]\<close> yields in \<open>s\<close>: the
  stored index, and 0 for a name that is not in the registry.
\<close>

definition registered :: "skeleton \<Rightarrow> string \<Rightarrow> int" where
  "registered s k = (case jointNames s k of Some i \<Rightarrow> i | None \<Rightarrow> 0)"



section \<open>Basic facts\<close>

lemmas run_defs =
  makeJoint_def makeSymmetric_def emptySkeleton_def initCompressed_def vget_def vput_def
  resize_def lookupName_def mapStep_def compStep_def edgeStep_def lenStep_def
  walkPrev.simps lenWalk.simps fracStep_def upt_rec vlength_def

lemma ySkeleton_built:
  "do { s \<leftarrow> makeJoint ''a'' (Vec3 0 0 0) [] emptySkeleton;
        s \<leftarrow> makeJoint ''b'' (Vec3 2 0 0) ''a'' s;
        s \<leftarrow> makeJoint ''c'' (Vec3 6 0 0) ''b'' s;
        s \<leftarrow> makeJoint ''d'' (Vec3 0 2 0) ''a'' s;
        s \<leftarrow> makeJoint ''e'' (Vec3 0 6 0) ''d'' s;
        makeSymmetric ''e'' ''c'' s } = Some ySkeleton"
  by (simp add: run_defs ySkeleton_def fun_upd_twist)

lemma initCompressed_ySkeleton: "initCompressed ySkeleton = Some yCompressed"
  by (simp add: run_defs ySkeleton_def yCompressed_def)

lemma forM_append: "forM (xs @ ys) f s = (forM xs f s \<bind> forM ys f)"
  by (induction xs arbitrary: s) (auto split: option.splits)

lemma vget_Some [simp]: "0 \<le> i \<Longrightarrow> i < int (length xs) \<Longrightarrow> vget xs i = Some (xs ! nat i)"
  by (simp add: vget_def)

lemma vput_Some [simp]: "0 \<le> i \<Longrightarrow> i < int (length xs) \<Longrightarrow> vput xs i v = Some (xs[nat i := v])"
  by (simp add: vput_def)

lemma vget_nat [simp]: "k < length xs \<Longrightarrow> vget xs (int k) = Some (xs ! k)"
  by (simp add: vget_def)

lemma vput_nat [simp]: "k < length xs \<Longrightarrow> vput xs (int k) v = Some (xs[k := v])"
  by (simp add: vput_def)

lemma resize_length [simp]: "length (resize xs n x) = n"
  by (simp add: resize_def)

section \<open>makeSymmetric\<close>

text \<open>
  Claim C7. For two names that are both registered, with indices \<open>i1\<close> and \<open>i2\<close> inside
  \<^verbatim>\<open>fSymV\<close>, \<open>makeSymmetric\<close> returns the same state for either order of the arguments;
  in it the entry of the higher index \<open>max i1 i2\<close> holds the lower index \<open>min i1 i2\<close>,
  every other entry of \<^verbatim>\<open>fSymV\<close> is as before, and so in particular the entry of the lower
  index when the two joints differ.
\<close>

theorem makeSymmetric_higher_points_to_lower:
  assumes "jointNames s name1 = Some i1" and "jointNames s name2 = Some i2"
    and "0 \<le> i1" and "i1 < int (length (fSymV s))"
    and "0 \<le> i2" and "i2 < int (length (fSymV s))"
  shows "\<exists>s'. makeSymmetric name1 name2 s = Some s'
           \<and> makeSymmetric name2 name1 s = Some s'
           \<and> length (fSymV s') = length (fSymV s)
           \<and> fSymV s' ! nat (max i1 i2) = min i1 i2
           \<and> (\<forall>k < length (fSymV s). k \<noteq> nat (max i1 i2) \<longrightarrow> fSymV s' ! k = fSymV s ! k)
           \<and> (i1 \<noteq> i2 \<longrightarrow> fSymV s' ! nat (min i1 i2) = fSymV s ! nat (min i1 i2))"
  using assms by (auto simp: makeSymmetric_def lookupName_def max_def min_def)

theorem makeSymmetric_higher_points_to_lower_witness:
  "jointNames ySkeleton ''e'' = Some 4 \<and> jointNames ySkeleton ''b'' = Some 1
   \<and> length (fSymV ySkeleton) = 5
   \<and> (\<exists>s'. makeSymmetric ''e'' ''b'' ySkeleton = Some s'
         \<and> makeSymmetric ''b'' ''e'' ySkeleton = Some s'
         \<and> fSymV s' = [-1, -1, -1, -1, 1])"
  using makeSymmetric_higher_points_to_lower [of ySkeleton "''e''" 4 "''b''" 1]
  by (simp add: ySkeleton_def makeSymmetric_def lookupName_def)

section \<open>FileSkeleton\<close>

text \<open>
  Claim C9. When the file cannot be opened, \<open>FileSkeleton\<close> writes the line
  "Error opening file" with the file name to the diagnostic channel and returns, without
  any undefined access, the skeleton as the default constructor left it: no joints and no
  compressed data.
\<close>

theorem FileSkeleton_unopened_file:
  "FileSkeleton scan filename None = (Inr emptySkeleton, [''Error opening file '' @ filename])
   \<and> verts (fGraphV emptySkeleton) = [] \<and> edges (fGraphV emptySkeleton) = []
   \<and> fPrevV emptySkeleton = [] \<and> fSymV emptySkeleton = []
   \<and> verts (cGraphV emptySkeleton) = [] \<and> edges (cGraphV emptySkeleton) = []
   \<and> cPrevV emptySkeleton = [] \<and> cSymV emptySkeleton = []
   \<and> fcMapV emptySkeleton = [] \<and> cfMapV emptySkeleton = []
   \<and> fcFractionV emptySkeleton = [] \<and> cLengthV emptySkeleton = []
   \<and> jointNames emptySkeleton = Map.empty"
  by (simp add: FileSkeleton_def emptySkeleton_def)

lemma vscale_twice_half [simp]: "vscale (vscale p 2) 0.5 = p"
  by (cases p) simp

lemma makeJoint_ok:
  assumes "namesOk s"
  shows "\<exists>s'. makeJoint name pos previous s = Some s' \<and> namesOk s'
            \<and> verts (fGraphV s') = verts (fGraphV s) @ [vscale pos 0.5]"
proof (cases "previous = []")
  case True
  then show ?thesis using assms
    by (fastforce simp: makeJoint_def namesOk_def Let_def)
next
  case False
  obtain prev names where ln: "lookupName ((jointNames s)(name \<mapsto> int (length (fSymV s)))) previous = (prev, names)"
    by (cases "lookupName ((jointNames s)(name \<mapsto> int (length (fSymV s)))) previous")
  have prev: "0 \<le> prev \<and> prev \<le> int (length (fSymV s))"
    using ln assms by (fastforce simp: lookupName_def namesOk_def split: option.splits if_splits)
  have names: "\<forall>k i. names k = Some i \<longrightarrow> 0 \<le> i \<and> i < int (length (fSymV s)) + 1"
    using ln assms by (fastforce simp: lookupName_def namesOk_def split: option.splits if_splits)
  have names': "\<And>k i. names k = Some i \<Longrightarrow> i < 1 + int (length (fSymV s))"
    using names by fastforce
  show ?thesis using False ln prev names names'
    by (simp add: makeJoint_def Let_def namesOk_def)
qed











lemma filter_upt_nth:
  "j < length (filter P [0..<n]) \<Longrightarrow>
     filter P [0..<n] ! j < n \<and> P (filter P [0..<n] ! j)
     \<and> length (filter P [0..<filter P [0..<n] ! j]) = j"
proof (induction n)
  case 0
  then show ?case by simp
next
  case (Suc n)
  show ?case
  proof (cases "j < length (filter P [0..<n])")
    case True
    with Suc.IH show ?thesis by (auto simp: nth_append)
  next
    case False
    with Suc.prems have "P n" "j = length (filter P [0..<n])"
      by (auto split: if_splits)
    then show ?thesis by (simp add: nth_append)
  qed
qed

lemma filter_upt_count_less:
  "i < n \<Longrightarrow> P i \<Longrightarrow> length (filter P [0..<i]) < length (filter P [0..<n])"
proof (induction n)
  case 0
  then show ?case by simp
next
  case (Suc n)
  show ?case
  proof (cases "i = n")
    case True
    with Suc.prems show ?thesis by simp
  next
    case False
    with Suc have "length (filter P [0..<i]) < length (filter P [0..<n])" by simp
    then show ?thesis by simp
  qed
qed

lemma filter_upt_nth_count:
  "i < n \<Longrightarrow> P i \<Longrightarrow> filter P [0..<n] ! length (filter P [0..<i]) = i"
proof (induction n)
  case 0
  then show ?case by simp
next
  case (Suc n)
  show ?case
  proof (cases "i = n")
    case True
    with Suc.prems show ?thesis by (simp add: nth_append)
  next
    case False
    with Suc.prems have i: "i < n" by simp
    have "length (filter P [0..<i]) < length (filter P [0..<n])"
      using i Suc.prems(2) by (rule filter_upt_count_less)
    with Suc.IH [OF i Suc.prems(2)]
    show ?thesis by (simp add: nth_append)
  qed
qed

lemma forM_mapStep:
  assumes "k \<le> n"
    and "n \<le> length (edges (fGraphV s))"
    and "fcMapV s = replicate n (-1)" and "cfMapV s = []"
  shows "forM [0..<k] mapStep s =
     Some (s\<lparr>fcMapV := map (fcMapOf s) [0..<k] @ replicate (n - k) (-1),
             cfMapV := map int (filter (retained s) [0..<k])\<rparr>)"
  using assms(1)
proof (induction k)
  case 0
  then show ?case using assms by simp
next
  case (Suc k)
  let ?t = "s\<lparr>fcMapV := map (fcMapOf s) [0..<k] @ replicate (n - k) (-1),
             cfMapV := map int (filter (retained s) [0..<k])\<rparr>"
  from Suc have run: "forM [0..<k] mapStep s = Some ?t" and k: "k < n" by simp_all
  have rep: "replicate (n - k) (-1::int) = -1 # replicate (n - Suc k) (-1)"
    using k by (simp add: Suc_diff_Suc flip: replicate_Suc)
  have step: "mapStep k ?t =
     Some (s\<lparr>fcMapV := map (fcMapOf s) [0..<Suc k] @ replicate (n - Suc k) (-1),
             cfMapV := map int (filter (retained s) [0..<Suc k])\<rparr>)"
  proof (cases "retained s k")
    case True
    then show ?thesis using k assms(2) rep
      by (auto simp: mapStep_def retained_def fcMapOf_def list_update_append)
  next
    case False
    then show ?thesis using k assms(2) rep
      by (auto simp: mapStep_def retained_def fcMapOf_def)
  qed
  show ?case using run step by (simp add: forM_append del: upt_Suc add: upt_Suc_append)
qed

lemma parentsOk_step:
  assumes "parentsOk fp" and "0 < c" and "c < int (length fp)"
  shows "0 \<le> fp ! nat c \<and> fp ! nat c < c"
proof -
  have "nat c < length fp" "0 < nat c" using assms by auto
  with assms(1) have "0 \<le> fp ! nat c \<and> fp ! nat c < int (nat c)"
    unfolding parentsOk_def by blast
  then show ?thesis using assms(2) by simp
qed

lemma chainUp_base:
  assumes "0 < cur" and "0 \<le> fp ! nat cur" and "fp ! nat cur < cur"
    and "0 \<le> fc ! nat (fp ! nat cur)"
  shows "chainUp fp fc cur 1"
  using assms by (simp add: chainUp_def)

lemma chainUp_step:
  assumes c: "chainUp fp fc (fp ! nat cur) k"
    and "0 < cur" and "fp ! nat cur < cur" and "fc ! nat (fp ! nat cur) = -1"
  shows "chainUp fp fc cur (Suc k)"
proof -
  let ?q = "fp ! nat cur"
  from c have k: "1 \<le> k"
    and ch: "\<And>u. u < k \<Longrightarrow> 0 < up fp u ?q \<and> up fp u ?q \<le> ?q \<and> (1 \<le> u \<longrightarrow> fc ! nat (up fp u ?q) = -1)"
    and top: "0 \<le> up fp k ?q" "up fp k ?q < ?q" "0 \<le> fc ! nat (up fp k ?q)"
    unfolding chainUp_def by blast+
  have "0 < up fp u cur \<and> up fp u cur \<le> cur \<and> (1 \<le> u \<longrightarrow> fc ! nat (up fp u cur) = -1)"
    if u: "u < Suc k" for u
  proof (cases u)
    case 0
    with assms(2) show ?thesis by simp
  next
    case (Suc u')
    with u have u': "u' < k" by simp
    from ch [OF u'] have a: "0 < up fp u' ?q" "up fp u' ?q \<le> ?q"
      "1 \<le> u' \<longrightarrow> fc ! nat (up fp u' ?q) = -1" by simp_all
    have b: "fc ! nat (up fp u' ?q) = -1"
    proof (cases u')
      case 0
      with assms(4) show ?thesis by simp
    next
      case (Suc u'')
      with a(3) show ?thesis by simp
    qed
    from a b assms(3) Suc show ?thesis by simp
  qed
  moreover have "0 \<le> up fp (Suc k) cur" "up fp (Suc k) cur < cur" "0 \<le> fc ! nat (up fp (Suc k) cur)"
    using top assms(3) by simp_all
  ultimately show ?thesis unfolding chainUp_def by simp
qed

lemma chainKeys_1: "chainKeys fp cur (Suc 0) = {cur}"
  by (simp add: chainKeys_def lessThan_Suc)

lemma chainKeys_Suc: "chainKeys fp cur (Suc k) = insert cur (chainKeys fp (fp ! nat cur) k)"
proof -
  have "{..<Suc k} = insert 0 (Suc ` {..<k})" by (simp add: lessThan_Suc_eq_insert_0)
  then show ?thesis by (simp add: chainKeys_def image_image)
qed

lemma chainSum_1: "chainSum vs fp cur (Suc 0) = segLen vs fp cur"
  by (simp add: chainSum_def)

lemma chainSum_Suc: "chainSum vs fp cur (Suc k) = segLen vs fp cur + chainSum vs fp (fp ! nat cur) k"
  unfolding chainSum_def by (simp add: sum.lessThan_Suc_shift del: sum.lessThan_Suc)

lemma lenWalk_unfold:
  assumes "length (verts (fGraphV s)) = length (fPrevV s)"
    and "length (fcMapV s) = length (fPrevV s)"
    and "0 \<le> cur" and "cur < int (length (fPrevV s))"
    and "0 \<le> fPrevV s ! nat cur" and "fPrevV s ! nat cur < int (length (fPrevV s))"
    and "0 \<le> i" and "i < int (length (cLengthV s))"
  shows "lenWalk i cur ls s =
      (if fcMapV s ! nat (fPrevV s ! nat cur) = -1
       then lenWalk i (fPrevV s ! nat cur)
              (AList.update cur (segLen (verts (fGraphV s)) (fPrevV s) cur) ls)
              (s\<lparr>cLengthV := (cLengthV s)[nat i := cLengthV s ! nat i + segLen (verts (fGraphV s)) (fPrevV s) cur]\<rparr>)
       else Some (AList.update cur (segLen (verts (fGraphV s)) (fPrevV s) cur) ls,
              s\<lparr>cLengthV := (cLengthV s)[nat i := cLengthV s ! nat i + segLen (verts (fGraphV s)) (fPrevV s) cur]\<rparr>))"
  apply (subst lenWalk.simps)
  using assms
  apply (simp add: segLen_def update_conv')
  done

lemma lenWalk_tree:
  assumes "fPrevV s = fp" and "verts (fGraphV s) = vs" and "fcMapV s = fc"
    and "parentsOk fp" and "length fc = length fp" and "length vs = length fp"
    and "0 \<le> fc ! 0"
    and "\<forall>x < length fp. fc ! x = -1 \<or> 0 \<le> fc ! x"
    and "0 < cur" and "cur < int (length fp)"
    and "0 \<le> i" and "i < int (length (cLengthV s))"
  shows "\<exists>k ls'. chainUp fp fc cur k
     \<and> lenWalk i cur ls s =
         Some (ls', s\<lparr>cLengthV := (cLengthV s)[nat i := cLengthV s ! nat i + chainSum vs fp cur k]\<rparr>)
     \<and> (\<forall>x. map_of ls' x = (if x \<in> chainKeys fp cur k then Some (segLen vs fp x) else map_of ls x))
     \<and> (distinct (map fst ls) \<longrightarrow> distinct (map fst ls'))"
  using assms(1,2,3,9,10,12)
proof (induction "nat cur" arbitrary: cur ls s rule: less_induct)
  case less
  note sfp = less.prems(1) and svs = less.prems(2) and sfc = less.prems(3)
  note cur0 = less.prems(4) and curn = less.prems(5) and il = less.prems(6)
  let ?q = "fp ! nat cur"
  let ?l = "segLen vs fp cur"
  let ?ls1 = "AList.update cur ?l ls"
  let ?s1 = "s\<lparr>cLengthV := (cLengthV s)[nat i := cLengthV s ! nat i + ?l]\<rparr>"
  from parentsOk_step [OF assms(4) cur0 curn]
  have q: "0 \<le> ?q" "?q < cur" by simp_all
  then have qn: "?q < int (length fp)" using curn by simp
  have unfold: "lenWalk i cur ls s =
      (if fc ! nat ?q = -1 then lenWalk i ?q ?ls1 ?s1 else Some (?ls1, ?s1))"
    using lenWalk_unfold [of s cur i ls] assms(5,6,11) cur0 curn q qn il
    unfolding sfp svs sfc by simp
  have d1: "distinct (map fst ls) \<longrightarrow> distinct (map fst ?ls1)"
    by (simp add: distinct_update)
  have m1: "map_of ?ls1 x = (if x = cur then Some ?l else map_of ls x)" for x
    by (simp add: update_conv')
  show ?case
  proof (cases "fc ! nat ?q = -1")
    case False
    have "nat ?q < length fp" using q qn by simp
    with assms(8) False have r: "0 \<le> fc ! nat ?q" by blast
    have c: "chainUp fp fc cur 1" using cur0 q r by (intro chainUp_base)
    have run: "lenWalk i cur ls s =
         Some (?ls1, s\<lparr>cLengthV := (cLengthV s)[nat i := cLengthV s ! nat i + chainSum vs fp cur 1]\<rparr>)"
      using unfold False by (simp add: chainSum_1)
    have m: "\<forall>x. map_of ?ls1 x = (if x \<in> chainKeys fp cur 1 then Some (segLen vs fp x) else map_of ls x)"
      by (simp add: m1 chainKeys_1)
    from c run m d1 show ?thesis by blast
  next
    case True
    with assms(7) have "nat ?q \<noteq> 0" by auto
    with q have q0: "0 < ?q" by simp
    have lt: "nat ?q < nat cur" using q by simp
    have il1: "i < int (length (cLengthV ?s1))" using il by simp
    have "\<exists>k ls'. chainUp fp fc ?q k
     \<and> lenWalk i ?q ?ls1 ?s1 =
         Some (ls', ?s1\<lparr>cLengthV := (cLengthV ?s1)[nat i := cLengthV ?s1 ! nat i + chainSum vs fp ?q k]\<rparr>)
     \<and> (\<forall>x. map_of ls' x = (if x \<in> chainKeys fp ?q k then Some (segLen vs fp x) else map_of ?ls1 x))
     \<and> (distinct (map fst ?ls1) \<longrightarrow> distinct (map fst ls'))"
    proof (rule less.hyps [OF lt])
      show "fPrevV ?s1 = fp" using sfp by simp
      show "verts (fGraphV ?s1) = vs" using svs by simp
      show "fcMapV ?s1 = fc" using sfc by simp
      show "0 < ?q" by (rule q0)
      show "?q < int (length fp)" by (rule qn)
      show "i < int (length (cLengthV ?s1))" by (rule il1)
    qed
    then obtain k ls' where c: "chainUp fp fc ?q k"
      and run: "lenWalk i ?q ?ls1 ?s1 =
         Some (ls', ?s1\<lparr>cLengthV := (cLengthV ?s1)[nat i := cLengthV ?s1 ! nat i + chainSum vs fp ?q k]\<rparr>)"
      and m: "\<And>x. map_of ls' x = (if x \<in> chainKeys fp ?q k then Some (segLen vs fp x) else map_of ?ls1 x)"
      and d: "distinct (map fst ?ls1) \<longrightarrow> distinct (map fst ls')"
      by blast
    have ni: "nat i < length (cLengthV s)" using il assms(11) by simp
    have st: "?s1\<lparr>cLengthV := (cLengthV ?s1)[nat i := cLengthV ?s1 ! nat i + chainSum vs fp ?q k]\<rparr>
        = s\<lparr>cLengthV := (cLengthV s)[nat i := cLengthV s ! nat i + chainSum vs fp cur (Suc k)]\<rparr>"
      using ni by (simp add: chainSum_Suc add.assoc)
    have c': "chainUp fp fc cur (Suc k)"
      using c cur0 q(2) True by (rule chainUp_step)
    have run': "lenWalk i cur ls s =
         Some (ls', s\<lparr>cLengthV := (cLengthV s)[nat i := cLengthV s ! nat i + chainSum vs fp cur (Suc k)]\<rparr>)"
      using unfold True run st by simp
    have m': "\<forall>x. map_of ls' x = (if x \<in> chainKeys fp cur (Suc k) then Some (segLen vs fp x) else map_of ls x)"
      by (simp add: m m1 chainKeys_Suc)
    have d': "distinct (map fst ls) \<longrightarrow> distinct (map fst ls')"
      using d d1 by blast
    from c' run' m' d' show ?thesis by blast
  qed
qed

lemma walkPrev_chain:
  assumes "parentsOk fp" and "length fc = length fp" and "0 \<le> fc ! 0"
    and "\<forall>x < length fp. fc ! x = -1 \<or> 0 \<le> fc ! x"
    and "0 < c" and "c < int (length fp)"
  shows "\<exists>k. chainUp fp fc c k \<and> walkPrev fc fp (fp ! nat c) = Some (up fp k c)"
  using assms(5,6)
proof (induction "nat c" arbitrary: c rule: less_induct)
  case less
  let ?q = "fp ! nat c"
  from parentsOk_step [OF assms(1) less.prems] have q: "0 \<le> ?q" "?q < c" by simp_all
  then have qn: "?q < int (length fp)" "nat ?q < length fp" using less.prems(2) by simp_all
  show ?case
  proof (cases "fc ! nat ?q = -1")
    case False
    with assms(4) qn(2) have r: "0 \<le> fc ! nat ?q" by blast
    have c1: "chainUp fp fc c 1" using less.prems(1) q r by (intro chainUp_base)
    have "walkPrev fc fp ?q = Some ?q"
      using r q(1) qn(1) assms(2) by (subst walkPrev.simps) simp
    then have "walkPrev fc fp ?q = Some (up fp 1 c)" by simp
    with c1 show ?thesis by blast
  next
    case True
    with assms(3) have "nat ?q \<noteq> 0" by auto
    with q have q0: "0 < ?q" by simp
    have lt: "nat ?q < nat c" using q by simp
    from less.hyps [OF lt q0 qn(1)] obtain k where
      k: "chainUp fp fc ?q k" "walkPrev fc fp (fp ! nat ?q) = Some (up fp k ?q)" by blast
    have c': "chainUp fp fc c (Suc k)" using k(1) less.prems(1) q(2) True by (rule chainUp_step)
    have "walkPrev fc fp ?q = walkPrev fc fp (fp ! nat ?q)"
      using True q(1) qn(1) assms(2) by (subst walkPrev.simps) simp
    with k(2) have "walkPrev fc fp ?q = Some (up fp (Suc k) c)" by simp
    with c' show ?thesis by blast
  qed
qed

lemma forM_upt_inv_aux:
  assumes "I a s"
    and step: "\<And>i t. a \<le> i \<Longrightarrow> i < b \<Longrightarrow> I i t \<Longrightarrow> \<exists>t'. f i t = Some t' \<and> I (Suc i) t'"
  shows "a \<le> c \<Longrightarrow> c \<le> b \<Longrightarrow> \<exists>t. forM [a..<c] f s = Some t \<and> I c t"
proof (induction c)
  case 0
  then show ?case using assms(1) by simp
next
  case (Suc c)
  show ?case
  proof (cases "a = Suc c")
    case True
    then show ?thesis using assms(1) by simp
  next
    case False
    with Suc.prems have ac: "a \<le> c" and cb: "c < b" by simp_all
    from Suc.IH [OF ac] cb obtain t where t: "forM [a..<c] f s = Some t" "I c t" by auto
    from step [OF ac cb t(2)] obtain t' where t': "f c t = Some t'" "I (Suc c) t'" by blast
    have "forM [a..<Suc c] f s = Some t'"
      using ac t(1) t'(1) by (simp add: forM_append)
    with t'(2) show ?thesis by blast
  qed
qed

lemma forM_upt_inv:
  assumes "I a s" and "a \<le> b"
    and "\<And>i t. a \<le> i \<Longrightarrow> i < b \<Longrightarrow> I i t \<Longrightarrow> \<exists>t'. f i t = Some t' \<and> I (Suc i) t'"
  shows "\<exists>t. forM [a..<b] f s = Some t \<and> I b t"
  using forM_upt_inv_aux [of I a s b f b] assms by blast

lemma forM_fracStep:
  assumes "distinct (map fst ls)"
    and "\<forall>x \<in> fst ` set ls. 0 \<le> x \<and> x < int (length (fcFractionV s))"
    and "0 \<le> i" and "i < int (length (cLengthV s))"
  shows "\<exists>fr. forM ls (fracStep i) s = Some (s\<lparr>fcFractionV := fr\<rparr>)
     \<and> length fr = length (fcFractionV s)
     \<and> (\<forall>x. 0 \<le> x \<longrightarrow> fr ! nat x =
           (case map_of ls x of Some v \<Rightarrow> v / (cLengthV s ! nat i) | None \<Rightarrow> fcFractionV s ! nat x))"
  using assms
proof (induction ls arbitrary: s)
  case Nil
  have "forM [] (fracStep i) s = Some (s\<lparr>fcFractionV := fcFractionV s\<rparr>)" by simp
  then show ?case by (intro exI [of _ "fcFractionV s"]) simp
next
  case (Cons kv ls)
  obtain k v where kv: "kv = (k, v)" by (cases kv)
  let ?cl = "cLengthV s ! nat i"
  let ?s1 = "s\<lparr>fcFractionV := (fcFractionV s)[nat k := v / ?cl]\<rparr>"
  have kr: "0 \<le> k" "k < int (length (fcFractionV s))" using Cons.prems(2) kv by simp_all
  have step: "fracStep i kv s = Some ?s1"
    using kr Cons.prems(3,4) kv by (simp add: fracStep_def)
  have knot: "map_of ls k = None"
    using Cons.prems(1) kv by (simp add: map_of_eq_None_iff)
  have "\<exists>fr. forM ls (fracStep i) ?s1 = Some (?s1\<lparr>fcFractionV := fr\<rparr>)
     \<and> length fr = length (fcFractionV ?s1)
     \<and> (\<forall>x. 0 \<le> x \<longrightarrow> fr ! nat x =
           (case map_of ls x of Some v \<Rightarrow> v / (cLengthV ?s1 ! nat i) | None \<Rightarrow> fcFractionV ?s1 ! nat x))"
  proof (rule Cons.IH)
    show "distinct (map fst ls)" using Cons.prems(1) by simp
    show "\<forall>x \<in> fst ` set ls. 0 \<le> x \<and> x < int (length (fcFractionV ?s1))"
      using Cons.prems(2) by simp
    show "0 \<le> i" by (rule Cons.prems(3))
    show "i < int (length (cLengthV ?s1))" using Cons.prems(4) by simp
  qed
  then obtain fr where raw: "forM ls (fracStep i) ?s1 = Some (?s1\<lparr>fcFractionV := fr\<rparr>)"
    "length fr = length (fcFractionV ?s1)"
    "\<And>x. 0 \<le> x \<Longrightarrow> fr ! nat x =
           (case map_of ls x of Some v \<Rightarrow> v / (cLengthV ?s1 ! nat i) | None \<Rightarrow> fcFractionV ?s1 ! nat x)"
    by blast
  have fr: "forM ls (fracStep i) ?s1 = Some (s\<lparr>fcFractionV := fr\<rparr>)"
    "length fr = length (fcFractionV s)"
    using raw(1,2) by simp_all
  have fr3: "fr ! nat x =
           (case map_of ls x of Some v \<Rightarrow> v / ?cl | None \<Rightarrow> ((fcFractionV s)[nat k := v / ?cl]) ! nat x)"
    if "0 \<le> x" for x
    using raw(3) [OF that] by (simp cong: option.case_cong)
  have run: "forM (kv # ls) (fracStep i) s = Some (s\<lparr>fcFractionV := fr\<rparr>)"
    using step fr(1) by simp
  have val: "fr ! nat x =
           (case map_of (kv # ls) x of Some v \<Rightarrow> v / ?cl | None \<Rightarrow> fcFractionV s ! nat x)"
    if x: "0 \<le> x" for x
  proof (cases "x = k")
    case True
    with fr3 [OF x] knot kr kv show ?thesis by simp
  next
    case False
    then have "nat x \<noteq> nat k" using x kr(1) by simp
    with fr3 [OF x] False kv show ?thesis by (simp split: option.splits)
  qed
  from run fr(2) val show ?case by blast
qed

lemma retained_cong: "fGraphV t = fGraphV s \<Longrightarrow> retained t = retained s"
  by (simp add: retained_def fun_eq_iff)

lemma fcMapOf_cong: "fGraphV t = fGraphV s \<Longrightarrow> fcMapOf t = fcMapOf s"
proof -
  assume "fGraphV t = fGraphV s"
  then have r: "retained t = retained s" by (rule retained_cong)
  show ?thesis unfolding fun_eq_iff fcMapOf_def r by simp
qed

lemma fcMapAll_length [simp]: "length (fcMapAll s) = length (fPrevV s)"
  by (simp add: fcMapAll_def)

lemma fcMapAll_nth: "i < length (fPrevV s) \<Longrightarrow> fcMapAll s ! i = fcMapOf s i"
  by (simp add: fcMapAll_def)

lemma fcMapOf_cases: "fcMapOf s i = -1 \<or> 0 \<le> fcMapOf s i"
  by (simp add: fcMapOf_def)

lemma fcMapOf_retained: "0 \<le> fcMapOf s i \<longleftrightarrow> retained s i"
  by (simp add: fcMapOf_def)

lemma fcMapOf_not_retained: "fcMapOf s i = -1 \<longleftrightarrow> \<not> retained s i"
  by (simp add: fcMapOf_def)

lemma fcMapOf_root: "fcMapOf s 0 = 0"
  by (simp add: fcMapOf_def retained_def)

lemma fcMapOf_inverse:
  assumes "i < length (fPrevV s)" and "retained s i"
  shows "fcMapOf s i < int (length (cfMapAll s)) \<and> cfMapAll s ! nat (fcMapOf s i) = int i"
proof -
  let ?c = "length (filter (retained s) [0..<i])"
  have a: "?c < length (filter (retained s) [0..<length (fPrevV s)])"
    using assms by (rule filter_upt_count_less)
  have b: "filter (retained s) [0..<length (fPrevV s)] ! ?c = i"
    using assms by (rule filter_upt_nth_count)
  show ?thesis using a b assms(2) by (simp add: fcMapOf_def cfMapAll_def)
qed

lemma cfMapAll_nth:
  assumes "j < length (cfMapAll s)"
  shows "\<exists>c < length (fPrevV s). cfMapAll s ! j = int c \<and> retained s c \<and> fcMapOf s c = int j
           \<and> (0 < j \<longrightarrow> 0 < c)"
proof -
  let ?xs = "filter (retained s) [0..<length (fPrevV s)]"
  have j: "j < length ?xs" using assms by (simp add: cfMapAll_def)
  from filter_upt_nth [OF j] have c: "?xs ! j < length (fPrevV s)" "retained s (?xs ! j)"
    "length (filter (retained s) [0..<?xs ! j]) = j" by simp_all
  have "0 < ?xs ! j" if "0 < j"
  proof (rule ccontr)
    assume "\<not> 0 < ?xs ! j"
    then have "?xs ! j = 0" by simp
    with c(3) that show False by simp
  qed
  then show ?thesis using c j
    by (intro exI [of _ "?xs ! j"]) (simp add: cfMapAll_def fcMapOf_def)
qed

lemma initCompressed_phases:
  assumes "treeSkeleton s"
  shows "initCompressed s = do {
     s5 \<leftarrow> forM [0..<length (cfMapAll s)] compStep (mapped s);
     s6 \<leftarrow> forM [1..<length (cPrevV s5)] edgeStep s5;
     forM [1..<length (cPrevV s6)] lenStep
       (s6\<lparr>cLengthV := resize (cLengthV s6) (length (cPrevV s6)) 0\<rparr>) }"
proof -
  let ?n = "length (fPrevV s)"
  let ?s1 = "s\<lparr>fcMapV := replicate ?n (-1), fcFractionV := replicate ?n (-1)\<rparr>"
  have s1: "s\<lparr>fcMapV := resize (fcMapV s) ?n (-1), fcFractionV := resize (fcFractionV s) ?n (-1)\<rparr> = ?s1"
    using assms by (simp add: treeSkeleton_def resize_def)
  have g: "fGraphV ?s1 = fGraphV s" by simp
  have "forM [0..<?n] mapStep ?s1 =
     Some (?s1\<lparr>fcMapV := map (fcMapOf ?s1) [0..<?n] @ replicate (?n - ?n) (-1),
             cfMapV := map int (filter (retained ?s1) [0..<?n])\<rparr>)"
    using assms by (intro forM_mapStep) (simp_all add: treeSkeleton_def)
  then have p1: "forM [0..<?n] mapStep ?s1 = Some (?s1\<lparr>fcMapV := fcMapAll s, cfMapV := cfMapAll s\<rparr>)"
    by (simp add: fcMapAll_def cfMapAll_def retained_cong [OF g] fcMapOf_cong [OF g])
  have p2: "?s1\<lparr>fcMapV := fcMapAll s, cfMapV := cfMapAll s,
       cPrevV := resize (cPrevV s) (length (cfMapAll s)) (-1),
       cSymV := resize (cSymV s) (length (cfMapAll s)) (-1),
       cGraphV := (cGraphV s)\<lparr>edges := resize (edges (cGraphV s)) (length (cfMapAll s)) []\<rparr>,
       cFeetV := replicate (length (cfMapAll s)) False,
       cFatV := replicate (length (cfMapAll s)) False\<rparr> = mapped s"
    using assms by (simp add: treeSkeleton_def resize_def mapped_def)
  show ?thesis
    unfolding initCompressed_def Let_def s1
    using p1 p2 by (simp add: Let_def)
qed

lemma compStep_result:
  assumes "i < length (cfMapV t)" and "cfMapV t ! i = int c"
    and "c < length (verts (fGraphV t))" and "c < length (fSymV t)"
    and "fSymV t ! c < int (length (fcMapV t))" and "i < length (cSymV t)"
    and "0 < i \<longrightarrow> c < length (fPrevV t) \<and> i < length (cPrevV t)
          \<and> walkPrev (fcMapV t) (fPrevV t) (fPrevV t ! c) = Some a
          \<and> 0 \<le> a \<and> a < int (length (fcMapV t))"
  shows "compStep i t = Some (t
     \<lparr>cGraphV := (cGraphV t)\<lparr>verts := verts (cGraphV t) @ [verts (fGraphV t) ! c]\<rparr>,
      cSymV := (if 0 \<le> fSymV t ! c then (cSymV t)[i := fcMapV t ! nat (fSymV t ! c)] else cSymV t),
      cPrevV := (if 0 < i then (cPrevV t)[i := fcMapV t ! nat a] else cPrevV t)\<rparr>)"
proof (cases "0 < i")
  case True
  with assms(7) have w: "c < length (fPrevV t)" "i < length (cPrevV t)"
    "walkPrev (fcMapV t) (fPrevV t) (fPrevV t ! c) = Some a" "0 \<le> a" "a < int (length (fcMapV t))"
    by simp_all
  show ?thesis
    using True assms(1-6) w by (simp add: compStep_def Let_def)
next
  case False
  show ?thesis
    using False assms(1-6) by (simp add: compStep_def Let_def)
qed

lemma treeSkeleton_fcMap:
  assumes "treeSkeleton s"
  shows "parentsOk (fPrevV s)" and "length (fcMapAll s) = length (fPrevV s)"
    and "0 < length (fPrevV s) \<Longrightarrow> 0 \<le> fcMapAll s ! 0"
    and "\<forall>x < length (fPrevV s). fcMapAll s ! x = -1 \<or> 0 \<le> fcMapAll s ! x"
proof -
  show "parentsOk (fPrevV s)" using assms by (simp add: treeSkeleton_def)
  show "length (fcMapAll s) = length (fPrevV s)" by simp
  show "0 \<le> fcMapAll s ! 0" if "0 < length (fPrevV s)"
    using that by (simp add: fcMapAll_nth fcMapOf_root)
  show "\<forall>x < length (fPrevV s). fcMapAll s ! x = -1 \<or> 0 \<le> fcMapAll s ! x"
    using fcMapOf_cases by (simp add: fcMapAll_nth)
qed

lemma chainUp_top:
  assumes "chainUp fp fc c k"
  shows "0 \<le> up fp k c" and "up fp k c < c" and "0 \<le> fc ! nat (up fp k c)" and "1 \<le> k"
  using assms unfolding chainUp_def by simp_all

lemma compStep_inv:
  assumes ts: "treeSkeleton s" and i: "i < length (cfMapAll s)" and inv: "compInv s i t"
  shows "\<exists>t'. compStep i t = Some t' \<and> compInv s (Suc i) t'"
proof -
  let ?n = "length (fPrevV s)" and ?fp = "fPrevV s" and ?fc = "fcMapAll s"
  from cfMapAll_nth [OF i] obtain c where c: "c < ?n" "cfMapAll s ! i = int c"
    "retained s c" "0 < i \<longrightarrow> 0 < c" by blast
  from inv have f: "fGraphV t = fGraphV s" "fPrevV t = fPrevV s" "fSymV t = fSymV s"
    "fcMapV t = ?fc" "cfMapV t = cfMapAll s"
    "fcFractionV t = replicate ?n (-1)" "cLengthV t = []"
    "length (cPrevV t) = length (cfMapAll s)" "length (cSymV t) = length (cfMapAll s)"
    "edges (cGraphV t) = replicate (length (cfMapAll s)) []"
    "length (verts (cGraphV t)) = i"
    and old: "\<And>j. j < i \<Longrightarrow> 0 < j \<Longrightarrow> prevOk s j (cPrevV t ! j)"
    unfolding compInv_def by simp_all
  from ts have l: "length (verts (fGraphV s)) = ?n" "length (fSymV s) = ?n"
    and sy: "\<forall>i < length (fSymV s). fSymV s ! i < int ?n"
    unfolding treeSkeleton_def by simp_all
  have sy': "fSymV s ! c < int ?n" using sy c(1) l(2) by simp
  have "\<exists>a. (0 < i \<longrightarrow> walkPrev ?fc ?fp (?fp ! c) = Some a \<and> 0 \<le> a \<and> a < int ?n
           \<and> prevOk s i (?fc ! nat a))"
  proof (cases "0 < i")
    case False
    then show ?thesis by simp
  next
    case True
    with c(4) have c0: "0 < int c" by simp
    have n0: "0 < ?n" using c(1) by linarith
    have cn: "int c < int ?n" using c(1) by simp
    from walkPrev_chain [OF treeSkeleton_fcMap(1,2) [OF ts] treeSkeleton_fcMap(3) [OF ts n0]
        treeSkeleton_fcMap(4) [OF ts] c0 cn]
    obtain k where k: "chainUp ?fp ?fc (int c) k"
      "walkPrev ?fc ?fp (?fp ! nat (int c)) = Some (up ?fp k (int c))" by auto
    from chainUp_top [OF k(1)] c(1) have "0 \<le> up ?fp k (int c)" "up ?fp k (int c) < int ?n"
      by simp_all
    moreover have "prevOk s i (?fc ! nat (up ?fp k (int c)))"
      unfolding prevOk_def c(2) using k(1) by blast
    ultimately show ?thesis using k(2) by auto
  qed
  then obtain a where a: "0 < i \<longrightarrow> walkPrev ?fc ?fp (?fp ! c) = Some a \<and> 0 \<le> a \<and> a < int ?n
           \<and> prevOk s i (?fc ! nat a)" by blast
  let ?t' = "t
     \<lparr>cGraphV := (cGraphV t)\<lparr>verts := verts (cGraphV t) @ [verts (fGraphV t) ! c]\<rparr>,
      cSymV := (if 0 \<le> fSymV t ! c then (cSymV t)[i := fcMapV t ! nat (fSymV t ! c)] else cSymV t),
      cPrevV := (if 0 < i then (cPrevV t)[i := fcMapV t ! nat a] else cPrevV t)\<rparr>"
  have run: "compStep i t = Some ?t'"
  proof (rule compStep_result)
    show "i < length (cfMapV t)" using i f(5) by simp
    show "cfMapV t ! i = int c" using c(2) f(5) by simp
    show "c < length (verts (fGraphV t))" using c(1) l(1) f(1) by simp
    show "c < length (fSymV t)" using c(1) l(2) f(3) by simp
    show "fSymV t ! c < int (length (fcMapV t))" using sy' f(3,4) by simp
    show "i < length (cSymV t)" using i f(9) by simp
    show "0 < i \<longrightarrow> c < length (fPrevV t) \<and> i < length (cPrevV t)
          \<and> walkPrev (fcMapV t) (fPrevV t) (fPrevV t ! c) = Some a
          \<and> 0 \<le> a \<and> a < int (length (fcMapV t))"
      using a c(1) i f(2,4,8) by simp
  qed
  have new: "prevOk s j (cPrevV ?t' ! j)" if j: "j < Suc i" "0 < j" for j
  proof (cases "j = i")
    case True
    with j(2) a i f(4,8) show ?thesis by simp
  next
    case False
    with j have "j < i" by simp
    from old [OF this j(2)] False show ?thesis by simp
  qed
  have "compInv s (Suc i) ?t'"
    unfolding compInv_def
  proof (intro conjI allI impI)
    fix j assume "j < Suc i" "0 < j"
    then show "prevOk s j (cPrevV ?t' ! j)" by (rule new)
  qed (use f in simp_all)
  with run show ?thesis by blast
qed

lemma compInv_mapped: "treeSkeleton s \<Longrightarrow> compInv s 0 (mapped s)"
  by (simp add: compInv_def mapped_def treeSkeleton_def)

lemma compLoop:
  assumes ts: "treeSkeleton s"
  shows "\<exists>t. forM [0..<length (cfMapAll s)] compStep (mapped s) = Some t
           \<and> compInv s (length (cfMapAll s)) t"
proof (rule forM_upt_inv [where I = "compInv s"])
  show "compInv s 0 (mapped s)" using ts by (rule compInv_mapped)
  show "0 \<le> length (cfMapAll s)" by simp
  show "\<exists>t'. compStep i t = Some t' \<and> compInv s (Suc i) t'"
    if "i < length (cfMapAll s)" "compInv s i t" for i t
    using ts that by (rule compStep_inv)
qed

lemma forM_upt_inv_max:
  assumes "I a s"
    and "\<And>i t. a \<le> i \<Longrightarrow> i < b \<Longrightarrow> I i t \<Longrightarrow> \<exists>t'. f i t = Some t' \<and> I (Suc i) t'"
  shows "\<exists>t. forM [a..<b] f s = Some t \<and> I (max a b) t"
proof (cases "a \<le> b")
  case True
  from forM_upt_inv [of I a s b f, OF assms(1) True assms(2)] True
  show ?thesis by (simp add: max_def)
next
  case False
  then show ?thesis using assms(1) by (simp add: max_def)
qed

lemma prevOk_range:
  assumes "j < length (cfMapAll s)" and "prevOk s j p"
  shows "0 \<le> p \<and> p < int (length (cfMapAll s))"
proof -
  let ?fp = "fPrevV s" and ?fc = "fcMapAll s"
  from cfMapAll_nth [OF assms(1)] obtain c where c: "c < length ?fp" "cfMapAll s ! j = int c"
    by blast
  from assms(2) obtain k where k: "chainUp ?fp ?fc (int c) k" "p = ?fc ! nat (up ?fp k (int c))"
    unfolding prevOk_def c(2) by blast
  let ?a = "up ?fp k (int c)"
  from chainUp_top [OF k(1)] have a: "0 \<le> ?a" "?a < int c" "0 \<le> ?fc ! nat ?a" by simp_all
  then have an: "nat ?a < length ?fp" using c(1) by simp
  then have "?fc ! nat ?a = fcMapOf s (nat ?a)" by (rule fcMapAll_nth)
  with a(3) have r: "retained s (nat ?a)" "p = fcMapOf s (nat ?a)"
    using k(2) by (simp_all add: fcMapOf_retained)
  from fcMapOf_inverse [OF an r(1)] a(3) k(2) r(2) show ?thesis by simp
qed

lemma edgeStep_result:
  assumes "i < length (cPrevV t)" and "i < length (edges (cGraphV t))"
    and "0 \<le> cPrevV t ! i" and "cPrevV t ! i < int (length (edges (cGraphV t)))"
  shows "edgeStep i t = Some (t\<lparr>cGraphV := (cGraphV t)\<lparr>edges :=
     ((edges (cGraphV t))[i := edges (cGraphV t) ! i @ [cPrevV t ! i]])
       [nat (cPrevV t ! i) :=
          ((edges (cGraphV t))[i := edges (cGraphV t) ! i @ [cPrevV t ! i]]) ! nat (cPrevV t ! i)
            @ [int i]]\<rparr>\<rparr>)"
  using assms by (simp add: edgeStep_def)

lemma edge_update_mono:
  assumes "x < length E"
  shows "set (E ! x) \<subseteq> set (((E[i := E ! i @ [p]])[q := (E[i := E ! i @ [p]]) ! q @ [r]]) ! x)"
proof -
  let ?E1 = "E[i := E ! i @ [p]]"
  have 1: "set (E ! x) \<subseteq> set (?E1 ! x)"
    using assms by (cases "x = i") auto
  have "set (?E1 ! x) \<subseteq> set ((?E1[q := ?E1 ! q @ [r]]) ! x)"
    using assms by (cases "x = q") auto
  with 1 show ?thesis by blast
qed

lemma edge_update_new:
  assumes "i < length E" and "q < length E"
  shows "p \<in> set (((E[i := E ! i @ [p]])[q := (E[i := E ! i @ [p]]) ! q @ [r]]) ! i)"
    and "r \<in> set (((E[i := E ! i @ [p]])[q := (E[i := E ! i @ [p]]) ! q @ [r]]) ! q)"
  using assms by (cases "i = q"; simp)+

lemma edgeStep_inv:
  assumes i: "0 < i" "i < length (cfMapAll s)" and inv: "edgeInv s i t"
  shows "\<exists>t'. edgeStep i t = Some t' \<and> edgeInv s (Suc i) t'"
proof -
  let ?m = "length (cfMapAll s)"
  let ?E = "edges (cGraphV t)" and ?p = "cPrevV t ! i"
  let ?E' = "(?E[i := ?E ! i @ [?p]])[nat ?p := (?E[i := ?E ! i @ [?p]]) ! nat ?p @ [int i]]"
  let ?t' = "t\<lparr>cGraphV := (cGraphV t)\<lparr>edges := ?E'\<rparr>\<rparr>"
  from inv have cd: "compDone s t" and ed: "edgesDone i t"
    and fr: "fcFractionV t = replicate (length (fPrevV s)) (-1)" "cLengthV t = []"
    unfolding edgeInv_def by simp_all
  from cd have lp: "length (cPrevV t) = ?m"
    and po: "\<And>j. j < ?m \<Longrightarrow> 0 < j \<Longrightarrow> prevOk s j (cPrevV t ! j)"
    unfolding compDone_def by simp_all
  from ed have le: "length ?E = ?m"
    and old: "\<And>j. j < i \<Longrightarrow> 0 < j \<Longrightarrow> cPrevV t ! j \<in> set (?E ! j) \<and> int j \<in> set (?E ! nat (cPrevV t ! j))"
    unfolding edgesDone_def lp by simp_all
  from prevOk_range [OF i(2) po [OF i(2) i(1)]] have p: "0 \<le> ?p" "?p < int ?m" by simp_all
  then have pn: "nat ?p < length ?E" using le by simp
  have il: "i < length ?E" using i(2) le by simp
  have run: "edgeStep i t = Some ?t'"
    using i(2) p lp le by (intro edgeStep_result) simp_all
  have cd': "compDone s ?t'" using cd unfolding compDone_def by simp
  have new: "cPrevV t ! j \<in> set (?E' ! j) \<and> int j \<in> set (?E' ! nat (cPrevV t ! j))"
    if j: "j < Suc i" "0 < j" for j
  proof (cases "j = i")
    case True
    with edge_update_new [OF il pn, where p = ?p and r = "int i"] show ?thesis by simp
  next
    case False
    with j have ji: "j < i" by simp
    then have jm: "j < ?m" using i(2) by simp
    from prevOk_range [OF jm po [OF jm j(2)]] have "nat (cPrevV t ! j) < length ?E"
      using le by linarith
    from edge_update_mono [OF this, where i = i and p = ?p and q = "nat ?p" and r = "int i"]
      edge_update_mono [where x = j and E = ?E and i = i and p = ?p and q = "nat ?p" and r = "int i"]
      jm le old [OF ji j(2)]
    show ?thesis by auto
  qed
  have "edgesDone (Suc i) ?t'"
    unfolding edgesDone_def using new le lp by simp
  with cd' fr have "edgeInv s (Suc i) ?t'" unfolding edgeInv_def by simp
  with run show ?thesis by blast
qed

lemma compInv_edgeInv:
  assumes "compInv s (length (cfMapAll s)) t"
  shows "edgeInv s 1 t"
  using assms unfolding compInv_def edgeInv_def compDone_def edgesDone_def by simp

lemma edgeLoop:
  assumes "compInv s (length (cfMapAll s)) t"
  shows "\<exists>t'. forM [1..<length (cPrevV t)] edgeStep t = Some t'
           \<and> edgeInv s (max 1 (length (cfMapAll s))) t'"
proof -
  have l: "length (cPrevV t) = length (cfMapAll s)" using assms unfolding compInv_def by simp
  show ?thesis unfolding l
  proof (rule forM_upt_inv_max [where I = "edgeInv s"])
    show "edgeInv s 1 t" using assms by (rule compInv_edgeInv)
    show "\<exists>u'. edgeStep i u = Some u' \<and> edgeInv s (Suc i) u'"
      if "1 \<le> i" "i < length (cfMapAll s)" "edgeInv s i u" for i u
      using that by (intro edgeStep_inv) simp_all
  qed
qed

lemma chainKeys_range:
  assumes "chainUp fp fc c k" and "x \<in> chainKeys fp c k"
  shows "0 < x \<and> x \<le> c"
  using assms unfolding chainUp_def chainKeys_def by auto

lemma lenStep_result:
  assumes ts: "treeSkeleton s" and i: "0 < i" "i < length (cfMapAll s)"
    and f: "fGraphV t = fGraphV s" "fPrevV t = fPrevV s" "fcMapV t = fcMapAll s"
      "cfMapV t = cfMapAll s"
    and l: "length (cLengthV t) = length (cfMapAll s)" "length (fcFractionV t) = length (fPrevV s)"
  shows "\<exists>k fr. chainUp (fPrevV s) (fcMapAll s) (cfMapAll s ! i) k
     \<and> lenStep i t = Some (t\<lparr>cLengthV := (cLengthV t)[i := cLengthV t ! i
            + chainSum (verts (fGraphV s)) (fPrevV s) (cfMapAll s ! i) k], fcFractionV := fr\<rparr>)
     \<and> length fr = length (fPrevV s)
     \<and> (\<forall>x. 0 \<le> x \<longrightarrow> fr ! nat x =
          (if x \<in> chainKeys (fPrevV s) (cfMapAll s ! i) k
           then segLen (verts (fGraphV s)) (fPrevV s) x
                / (cLengthV t ! i + chainSum (verts (fGraphV s)) (fPrevV s) (cfMapAll s ! i) k)
           else fcFractionV t ! nat x))"
proof -
  let ?fp = "fPrevV s" and ?fc = "fcMapAll s" and ?vs = "verts (fGraphV s)"
  let ?n = "length ?fp"
  from cfMapAll_nth [OF i(2)] i(1) obtain c where c: "c < ?n" "cfMapAll s ! i = int c" "0 < c"
    by blast
  have n0: "0 < ?n" using c(1) by linarith
  have lv: "length ?vs = ?n" using ts unfolding treeSkeleton_def by simp
  have "\<exists>k ls'. chainUp ?fp ?fc (int c) k
     \<and> lenWalk (int i) (int c) [] t =
         Some (ls', t\<lparr>cLengthV := (cLengthV t)[nat (int i) := cLengthV t ! nat (int i) + chainSum ?vs ?fp (int c) k]\<rparr>)
     \<and> (\<forall>x. map_of ls' x = (if x \<in> chainKeys ?fp (int c) k then Some (segLen ?vs ?fp x) else map_of [] x))
     \<and> (distinct (map fst ([]::(int \<times> real) list)) \<longrightarrow> distinct (map fst ls'))"
  proof (rule lenWalk_tree)
    show "fPrevV t = ?fp" by (rule f(2))
    show "verts (fGraphV t) = ?vs" using f(1) by simp
    show "fcMapV t = ?fc" by (rule f(3))
    show "parentsOk ?fp" using ts by (rule treeSkeleton_fcMap(1))
    show "length ?fc = ?n" by simp
    show "length ?vs = ?n" by (rule lv)
    show "0 \<le> ?fc ! 0" using ts n0 by (rule treeSkeleton_fcMap(3))
    show "\<forall>x < ?n. ?fc ! x = -1 \<or> 0 \<le> ?fc ! x" using ts by (rule treeSkeleton_fcMap(4))
    show "0 < int c" using c(3) by simp
    show "int c < int ?n" using c(1) by simp
    show "0 \<le> int i" by simp
    show "int i < int (length (cLengthV t))" using i(2) l(1) by simp
  qed
  then obtain k ls' where k: "chainUp ?fp ?fc (int c) k"
    and walk: "lenWalk (int i) (int c) [] t =
         Some (ls', t\<lparr>cLengthV := (cLengthV t)[i := cLengthV t ! i + chainSum ?vs ?fp (int c) k]\<rparr>)"
    and m: "\<And>x. map_of ls' x = (if x \<in> chainKeys ?fp (int c) k then Some (segLen ?vs ?fp x) else None)"
    and d: "distinct (map fst ls')"
    by auto
  let ?t1 = "t\<lparr>cLengthV := (cLengthV t)[i := cLengthV t ! i + chainSum ?vs ?fp (int c) k]\<rparr>"
  have keys: "\<forall>x \<in> fst ` set ls'. 0 \<le> x \<and> x < int (length (fcFractionV ?t1))"
  proof
    fix x assume "x \<in> fst ` set ls'"
    then have "map_of ls' x \<noteq> None" by (simp add: map_of_eq_None_iff)
    with m [of x] have "x \<in> chainKeys ?fp (int c) k" by (simp split: if_splits)
    from chainKeys_range [OF k this] c(1) l(2)
    show "0 \<le> x \<and> x < int (length (fcFractionV ?t1))" by simp
  qed
  have il: "int i < int (length (cLengthV ?t1))" using i(2) l(1) by simp
  from forM_fracStep [OF d keys _ il] obtain fr where
    raw: "forM ls' (fracStep (int i)) ?t1 = Some (?t1\<lparr>fcFractionV := fr\<rparr>)"
      "length fr = length (fcFractionV ?t1)"
      "\<And>x. 0 \<le> x \<Longrightarrow> fr ! nat x =
           (case map_of ls' x of Some v \<Rightarrow> v / (cLengthV ?t1 ! nat (int i)) | None \<Rightarrow> fcFractionV ?t1 ! nat x)"
    by auto
  have ii: "i < length (cLengthV t)" using i(2) l(1) by simp
  have val: "fr ! nat x =
          (if x \<in> chainKeys ?fp (int c) k
           then segLen ?vs ?fp x / (cLengthV t ! i + chainSum ?vs ?fp (int c) k)
           else fcFractionV t ! nat x)" if "0 \<le> x" for x
    using raw(3) [OF that] ii by (simp add: m)
  have run: "lenStep i t = Some (t\<lparr>cLengthV := (cLengthV t)[i := cLengthV t ! i
            + chainSum ?vs ?fp (int c) k], fcFractionV := fr\<rparr>)"
    using i(2) f(4) c(2) walk raw(1) by (simp add: lenStep_def)
  have len: "length fr = ?n" using raw(2) l(2) by simp
  from k run len val show ?thesis unfolding c(2) by blast
qed

lemma lenStep_inv:
  assumes ts: "treeSkeleton s" and i: "0 < i" "i < length (cfMapAll s)" and inv: "lenInv s i t"
  shows "\<exists>t'. lenStep i t = Some t' \<and> lenInv s (Suc i) t'"
proof -
  let ?fp = "fPrevV s" and ?fc = "fcMapAll s" and ?vs = "verts (fGraphV s)"
  let ?m = "length (cfMapAll s)" and ?c = "cfMapAll s ! i"
  from inv have cd: "compDone s t" and ed: "edgesDone ?m t"
    and l: "length (cLengthV t) = ?m" "length (fcFractionV t) = length ?fp"
    and z: "\<And>j. i \<le> j \<Longrightarrow> j < ?m \<Longrightarrow> cLengthV t ! j = 0"
    and lo: "\<And>j. j < i \<Longrightarrow> 0 < j \<Longrightarrow> lenOk s t j"
    and fo: "\<And>j. chainsDisjoint s \<Longrightarrow> j < i \<Longrightarrow> 0 < j \<Longrightarrow> fracOk s t j"
    unfolding lenInv_def by simp_all
  from cd have f: "fGraphV t = fGraphV s" "fPrevV t = fPrevV s" "fcMapV t = ?fc" "cfMapV t = cfMapAll s"
    unfolding compDone_def by simp_all
  have zi: "cLengthV t ! i = 0" using z [of i] i(2) by simp
  from lenStep_result [OF ts i f l] obtain k fr where
    k: "chainUp ?fp ?fc ?c k"
    and run: "lenStep i t = Some (t\<lparr>cLengthV := (cLengthV t)[i := chainSum ?vs ?fp ?c k],
                 fcFractionV := fr\<rparr>)"
    and lf: "length fr = length ?fp"
    and val: "\<And>x. 0 \<le> x \<Longrightarrow> fr ! nat x =
          (if x \<in> chainKeys ?fp ?c k then segLen ?vs ?fp x / chainSum ?vs ?fp ?c k
           else fcFractionV t ! nat x)"
    unfolding zi by auto
  let ?t' = "t\<lparr>cLengthV := (cLengthV t)[i := chainSum ?vs ?fp ?c k], fcFractionV := fr\<rparr>"
  have il: "i < length (cLengthV t)" using i(2) l(1) by simp
  have cd': "compDone s ?t'" using cd unfolding compDone_def by simp
  have ed': "edgesDone ?m ?t'" using ed unfolding edgesDone_def by simp
  have z': "cLengthV ?t' ! j = 0" if "Suc i \<le> j" "j < ?m" for j
    using that z [of j] by simp
  have lo': "lenOk s ?t' j" if j: "j < Suc i" "0 < j" for j
  proof (cases "j = i")
    case True
    then show ?thesis unfolding lenOk_def using k il by auto
  next
    case False
    with j have "j < i" by simp
    from lo [OF this j(2)] False show ?thesis unfolding lenOk_def by simp
  qed
  have fo': "fracOk s ?t' j" if cdj: "chainsDisjoint s" and j: "j < Suc i" "0 < j" for j
  proof (cases "j = i")
    case True
    have "fcFractionV ?t' ! nat x = segLen ?vs ?fp x / cLengthV ?t' ! i"
      if x: "x \<in> chainKeys ?fp ?c k" for x
    proof -
      from chainKeys_range [OF k x] have "0 \<le> x" by simp
      from val [OF this] x il show ?thesis by simp
    qed
    with k True show ?thesis unfolding fracOk_def by blast
  next
    case False
    with j have ji: "j < i" by simp
    from fo [OF cdj ji j(2)] obtain k' where k': "chainUp ?fp ?fc (cfMapAll s ! j) k'"
      and old: "\<And>x. x \<in> chainKeys ?fp (cfMapAll s ! j) k' \<Longrightarrow>
              fcFractionV t ! nat x = segLen ?vs ?fp x / cLengthV t ! j"
      unfolding fracOk_def by blast
    have jm: "j < ?m" using ji i(2) by simp
    from cdj jm i(2) False k' k
    have dis: "chainKeys ?fp (cfMapAll s ! j) k' \<inter> chainKeys ?fp ?c k = {}"
      unfolding chainsDisjoint_def by blast
    have "fcFractionV ?t' ! nat x = segLen ?vs ?fp x / cLengthV ?t' ! j"
      if x: "x \<in> chainKeys ?fp (cfMapAll s ! j) k'" for x
    proof -
      from chainKeys_range [OF k' x] have x0: "0 \<le> x" by simp
      from dis x have "x \<notin> chainKeys ?fp ?c k" by blast
      with val [OF x0] old [OF x] False show ?thesis by simp
    qed
    with k' show ?thesis unfolding fracOk_def by blast
  qed
  have "lenInv s (Suc i) ?t'"
    unfolding lenInv_def
    using cd' ed' l lf z' lo' fo' by simp
  with run show ?thesis by blast
qed

lemma edgesDone_mono: "edgesDone i t \<Longrightarrow> j \<le> i \<Longrightarrow> edgesDone j t"
  unfolding edgesDone_def by simp

lemma edgeInv_lenInv:
  assumes "edgeInv s (max 1 (length (cfMapAll s))) t"
  shows "lenInv s 1 (t\<lparr>cLengthV := resize (cLengthV t) (length (cPrevV t)) 0\<rparr>)"
proof -
  let ?m = "length (cfMapAll s)"
  from assms have cd: "compDone s t" and ed: "edgesDone (max 1 ?m) t"
    and fr: "fcFractionV t = replicate (length (fPrevV s)) (-1)" "cLengthV t = []"
    unfolding edgeInv_def by simp_all
  from cd have lp: "length (cPrevV t) = ?m" unfolding compDone_def by simp
  let ?t = "t\<lparr>cLengthV := replicate ?m 0\<rparr>"
  have eq: "t\<lparr>cLengthV := resize (cLengthV t) (length (cPrevV t)) 0\<rparr> = ?t"
    using fr(2) lp by (simp add: resize_def)
  have cd': "compDone s ?t" using cd unfolding compDone_def by simp
  have "edgesDone ?m t" using ed by (rule edgesDone_mono) simp
  then have ed': "edgesDone ?m ?t" unfolding edgesDone_def by simp
  show ?thesis unfolding eq lenInv_def using cd' ed' fr(1) by simp
qed

lemma lenLoop:
  assumes ts: "treeSkeleton s" and "edgeInv s (max 1 (length (cfMapAll s))) t"
  shows "\<exists>t'. forM [1..<length (cPrevV t)] lenStep
                (t\<lparr>cLengthV := resize (cLengthV t) (length (cPrevV t)) 0\<rparr>) = Some t'
           \<and> lenInv s (max 1 (length (cfMapAll s))) t'"
proof -
  have l: "length (cPrevV t) = length (cfMapAll s)"
    using assms(2) unfolding edgeInv_def compDone_def by simp
  show ?thesis unfolding l [symmetric]
  proof (rule forM_upt_inv_max [where I = "lenInv s"])
    show "lenInv s 1 (t\<lparr>cLengthV := resize (cLengthV t) (length (cPrevV t)) 0\<rparr>)"
      using assms(2) by (rule edgeInv_lenInv)
    show "\<exists>u'. lenStep i u = Some u' \<and> lenInv s (Suc i) u'"
      if "1 \<le> i" "i < length (cPrevV t)" "lenInv s i u" for i u
      using ts that l by (intro lenStep_inv) simp_all
  qed
qed

lemma initCompressed_tree:
  assumes ts: "treeSkeleton s"
  shows "\<exists>s'. initCompressed s = Some s' \<and> lenInv s (max 1 (length (cfMapAll s))) s'"
proof -
  from compLoop [OF ts] obtain t5 where
    t5: "forM [0..<length (cfMapAll s)] compStep (mapped s) = Some t5"
        "compInv s (length (cfMapAll s)) t5" by blast
  from edgeLoop [OF t5(2)] obtain t6 where
    t6: "forM [1..<length (cPrevV t5)] edgeStep t5 = Some t6"
        "edgeInv s (max 1 (length (cfMapAll s))) t6" by blast
  from lenLoop [OF ts t6(2)] obtain t7 where
    t7: "forM [1..<length (cPrevV t6)] lenStep
           (t6\<lparr>cLengthV := resize (cLengthV t6) (length (cPrevV t6)) 0\<rparr>) = Some t7"
        "lenInv s (max 1 (length (cfMapAll s))) t7" by blast
  have "initCompressed s = Some t7"
    unfolding initCompressed_phases [OF ts] using t5(1) t6(1) t7(1) by simp
  with t7(2) show ?thesis by blast
qed


lemma chainUp_nearestRetained:
  assumes c: "chainUp (fPrevV s) (fcMapAll s) c k" and cn: "c < int (length (fPrevV s))"
  shows "nearestRetained s c k"
proof -
  let ?fp = "fPrevV s" and ?fc = "fcMapAll s"
  from c have k: "1 \<le> k"
    and ch: "\<And>u. u < k \<Longrightarrow> 0 < up ?fp u c \<and> up ?fp u c \<le> c \<and> (1 \<le> u \<longrightarrow> ?fc ! nat (up ?fp u c) = -1)"
    and top: "0 \<le> up ?fp k c" "up ?fp k c < c" "0 \<le> ?fc ! nat (up ?fp k c)"
    unfolding chainUp_def by blast+
  have rng: "0 \<le> up ?fp u c \<and> up ?fp u c < int (length ?fp)" if "u \<le> k" for u
  proof (cases "u = k")
    case True
    with top cn show ?thesis by simp
  next
    case False
    with that have "u < k" by simp
    from ch [OF this] cn show ?thesis by simp
  qed
  have nr: "\<not> retained s (nat (up ?fp u c))" if u: "1 \<le> u" "u < k" for u
  proof -
    from rng [of u] u have "nat (up ?fp u c) < length ?fp" by linarith
    then have "?fc ! nat (up ?fp u c) = fcMapOf s (nat (up ?fp u c))" by (rule fcMapAll_nth)
    with ch [OF u(2)] u(1) show ?thesis by (simp add: fcMapOf_not_retained)
  qed
  have r: "retained s (nat (up ?fp k c))"
  proof -
    from rng [of k] have "nat (up ?fp k c) < length ?fp" by linarith
    then have "?fc ! nat (up ?fp k c) = fcMapOf s (nat (up ?fp k c))" by (rule fcMapAll_nth)
    with top(3) show ?thesis by (simp add: fcMapOf_retained)
  qed
  show ?thesis unfolding nearestRetained_def using k rng nr r by blast
qed

lemma fcMapOf_pos: "0 < i \<Longrightarrow> retained s i \<Longrightarrow> 0 < fcMapOf s i"
proof -
  assume i: "0 < i" and r: "retained s i"
  have "retained s 0" by (simp add: retained_def)
  with i have "0 \<in> set (filter (retained s) [0..<i])" by simp
  then have "0 < length (filter (retained s) [0..<i])" by (rule length_pos_if_in_set)
  with r show ?thesis by (simp add: fcMapOf_def)
qed

text \<open>Each retained joint other than the root is an entry of the compressed index list.\<close>

lemma retained_index:
  assumes "i < length (fPrevV s)" and "0 < i" and "retained s i"
  shows "\<exists>j. 0 < j \<and> j < length (cfMapAll s) \<and> fcMapAll s ! i = int j \<and> cfMapAll s ! j = int i"
proof -
  from fcMapOf_inverse [OF assms(1,3)] fcMapOf_pos [OF assms(2,3)]
  have "0 < nat (fcMapOf s i)" "nat (fcMapOf s i) < length (cfMapAll s)"
    "fcMapOf s i = int (nat (fcMapOf s i))" "cfMapAll s ! nat (fcMapOf s i) = int i"
    by linarith+
  with fcMapAll_nth [OF assms(1)]
  show ?thesis by (intro exI [of _ "nat (fcMapOf s i)"]) simp
qed

lemma treeSkeleton_ySkeleton: "treeSkeleton ySkeleton"
  by (auto simp: treeSkeleton_def parentsOk_def ySkeleton_def less_Suc_eq)

lemma lenInv_maps:
  assumes "lenInv s i t"
  shows "fGraphV t = fGraphV s" "fPrevV t = fPrevV s" "fcMapV t = fcMapAll s" "cfMapV t = cfMapAll s"
  using assms unfolding lenInv_def compDone_def by simp_all

section \<open>initCompressed: which joints are retained\<close>

text \<open>
  Claim C1. On a skeleton as the construction calls leave it, \<open>initCompressed\<close> returns,
  and in the state it returns \<^verbatim>\<open>fcMapV\<close> has one entry per full joint; the entry of joint
  \<open>i\<close> is a valid compressed index if and only if \<open>i = 0\<close> or the edge list of \<open>i\<close> does
  not have size 2, and it is \<open>-1\<close> otherwise; a retained joint gets as its index the number
  of retained joints before it (so the indices are sequential in increasing full-index
  order), and \<^verbatim>\<open>cfMapV\<close> maps that index back to the joint.
\<close>

theorem initCompressed_retains_root_and_degree_not_2:
  assumes "treeSkeleton s"
  shows "\<exists>s'. initCompressed s = Some s'
     \<and> length (fcMapV s') = length (fPrevV s)
     \<and> (\<forall>i < length (fPrevV s).
           (0 \<le> fcMapV s' ! i \<and> fcMapV s' ! i < int (length (cfMapV s')))
             = (i = 0 \<or> length (edges (fGraphV s) ! i) \<noteq> 2))
     \<and> (\<forall>i < length (fPrevV s).
           \<not> (i = 0 \<or> length (edges (fGraphV s) ! i) \<noteq> 2) \<longrightarrow> fcMapV s' ! i = -1)
     \<and> (\<forall>i < length (fPrevV s).
           (i = 0 \<or> length (edges (fGraphV s) ! i) \<noteq> 2) \<longrightarrow>
             fcMapV s' ! i = int (length (filter (retained s) [0..<i]))
           \<and> cfMapV s' ! nat (fcMapV s' ! i) = int i)"
proof -
  from initCompressed_tree [OF assms] obtain s' where
    run: "initCompressed s = Some s'" and inv: "lenInv s (max 1 (length (cfMapAll s))) s'"
    by blast
  note m = lenInv_maps(3,4) [OF inv]
  have a: "fcMapAll s ! i = fcMapOf s i" if "i < length (fPrevV s)" for i
    using that by (rule fcMapAll_nth)
  have r: "retained s i = (i = 0 \<or> length (edges (fGraphV s) ! i) \<noteq> 2)" for i
    by (simp add: retained_def)
  have 1: "(0 \<le> fcMapV s' ! i \<and> fcMapV s' ! i < int (length (cfMapV s')))
             = (i = 0 \<or> length (edges (fGraphV s) ! i) \<noteq> 2)" if i: "i < length (fPrevV s)" for i
  proof (cases "retained s i")
    case True
    from fcMapOf_inverse [OF i True] True show ?thesis
      unfolding m a [OF i] r [symmetric] by (simp add: fcMapOf_retained)
  next
    case False
    then show ?thesis unfolding m a [OF i] r [symmetric] by (simp add: fcMapOf_retained)
  qed
  have 2: "fcMapV s' ! i = -1"
    if i: "i < length (fPrevV s)" "\<not> (i = 0 \<or> length (edges (fGraphV s) ! i) \<noteq> 2)" for i
    using i(2) unfolding m a [OF i(1)] r [symmetric] by (simp add: fcMapOf_not_retained)
  have 3: "fcMapV s' ! i = int (length (filter (retained s) [0..<i]))
           \<and> cfMapV s' ! nat (fcMapV s' ! i) = int i"
    if i: "i < length (fPrevV s)" "i = 0 \<or> length (edges (fGraphV s) ! i) \<noteq> 2" for i
  proof -
    from i(2) have t: "retained s i" by (simp add: r)
    from fcMapOf_inverse [OF i(1) t] t show ?thesis
      unfolding m a [OF i(1)] by (simp add: fcMapOf_def)
  qed
  have 0: "length (fcMapV s') = length (fPrevV s)" unfolding m by simp
  from run 0 1 2 3 show ?thesis by blast
qed

theorem initCompressed_retains_root_and_degree_not_2_witness:
  "treeSkeleton ySkeleton
   \<and> (\<exists>s'. initCompressed ySkeleton = Some s'
         \<and> fcMapV s' = [0, -1, 1, -1, 2] \<and> cfMapV s' = [0, 2, 4]
         \<and> map (\<lambda>i. length (edges (fGraphV ySkeleton) ! i)) [0, 1, 2, 3, 4] = [2, 2, 1, 2, 1])"
  using initCompressed_retains_root_and_degree_not_2 [OF treeSkeleton_ySkeleton]
    treeSkeleton_ySkeleton
  by (simp add: initCompressed_ySkeleton) (simp add: yCompressed_def ySkeleton_def)

lemma lenInv_prev:
  assumes "lenInv s i t" and "j < length (cfMapAll s)" and "0 < j"
  shows "prevOk s j (cPrevV t ! j)"
    and "cPrevV t ! j \<in> set (edges (cGraphV t) ! j)"
    and "int j \<in> set (edges (cGraphV t) ! nat (cPrevV t ! j))"
    and "length (cPrevV t) = length (cfMapAll s)"
    and "length (edges (cGraphV t)) = length (cfMapAll s)"
  using assms unfolding lenInv_def compDone_def edgesDone_def by simp_all

section \<open>initCompressed: parents and edges of the compressed skeleton\<close>

text \<open>
  Claim C4. On a skeleton as the construction calls leave it, \<open>initCompressed\<close> returns,
  and for every retained joint \<open>i\<close> other than the root, with compressed index \<open>j\<close>, there
  is a number \<open>k\<close> of steps up the full parent list such that the \<open>k\<close>-th ancestor of \<open>i\<close> is
  its nearest retained proper ancestor (the ancestors before it are collapsed joints), and
  \<^verbatim>\<open>cPrevV[j]\<close> is the compressed index of that ancestor; the edge list of \<open>j\<close> in the
  compressed graph contains \<^verbatim>\<open>cPrevV[j]\<close>, and the edge list of \<^verbatim>\<open>cPrevV[j]\<close> contains \<open>j\<close>.
\<close>

theorem initCompressed_parent_is_nearest_retained_ancestor:
  assumes "treeSkeleton s"
  shows "\<exists>s'. initCompressed s = Some s'
     \<and> length (cPrevV s') = length (cfMapV s')
     \<and> length (edges (cGraphV s')) = length (cfMapV s')
     \<and> (\<forall>i < length (fPrevV s). 0 < i \<and> retained s i \<longrightarrow>
          (\<exists>j k. fcMapV s' ! i = int j \<and> 0 < j \<and> j < length (cfMapV s')
             \<and> cfMapV s' ! j = int i
             \<and> nearestRetained s (int i) k
             \<and> cPrevV s' ! j = fcMapV s' ! nat (up (fPrevV s) k (int i))
             \<and> 0 \<le> cPrevV s' ! j \<and> cPrevV s' ! j < int (length (cfMapV s'))
             \<and> cPrevV s' ! j \<in> set (edges (cGraphV s') ! j)
             \<and> int j \<in> set (edges (cGraphV s') ! nat (cPrevV s' ! j))))"
proof -
  from initCompressed_tree [OF assms] obtain s' where
    run: "initCompressed s = Some s'" and inv: "lenInv s (max 1 (length (cfMapAll s))) s'"
    by blast
  note m = lenInv_maps(3,4) [OF inv]
  have main: "\<exists>j k. fcMapV s' ! i = int j \<and> 0 < j \<and> j < length (cfMapV s')
             \<and> cfMapV s' ! j = int i
             \<and> nearestRetained s (int i) k
             \<and> cPrevV s' ! j = fcMapV s' ! nat (up (fPrevV s) k (int i))
             \<and> 0 \<le> cPrevV s' ! j \<and> cPrevV s' ! j < int (length (cfMapV s'))
             \<and> cPrevV s' ! j \<in> set (edges (cGraphV s') ! j)
             \<and> int j \<in> set (edges (cGraphV s') ! nat (cPrevV s' ! j))"
    if i: "i < length (fPrevV s)" "0 < i" "retained s i" for i
  proof -
    from retained_index [OF i] obtain j where j: "0 < j" "j < length (cfMapAll s)"
      "fcMapAll s ! i = int j" "cfMapAll s ! j = int i" by blast
    note p = lenInv_prev [OF inv j(2) j(1)]
    from p(1) obtain k where k: "chainUp (fPrevV s) (fcMapAll s) (int i) k"
      "cPrevV s' ! j = fcMapAll s ! nat (up (fPrevV s) k (int i))"
      unfolding prevOk_def j(4) by blast
    have "int i < int (length (fPrevV s))" using i(1) by simp
    with k(1) have nr: "nearestRetained s (int i) k" by (rule chainUp_nearestRetained)
    from prevOk_range [OF j(2) p(1)] have rg: "0 \<le> cPrevV s' ! j"
      "cPrevV s' ! j < int (length (cfMapAll s))" by simp_all
    show ?thesis unfolding m
      using j nr k(2) rg p(2,3) by blast
  qed
  have l: "length (cPrevV s') = length (cfMapV s')" "length (edges (cGraphV s')) = length (cfMapV s')"
  proof -
    from inv have "length (cPrevV s') = length (cfMapAll s)"
      "length (edges (cGraphV s')) = length (cPrevV s')"
      unfolding lenInv_def compDone_def edgesDone_def by simp_all
    then show "length (cPrevV s') = length (cfMapV s')"
      "length (edges (cGraphV s')) = length (cfMapV s')" unfolding m by simp_all
  qed
  from run l main show ?thesis by blast
qed

lemma nearestRetained_ySkeleton: "nearestRetained ySkeleton 2 2"
  by (auto simp: nearestRetained_def retained_def ySkeleton_def le_Suc_eq less_Suc_eq numeral_2_eq_2)

theorem initCompressed_parent_is_nearest_retained_ancestor_witness:
  "treeSkeleton ySkeleton
   \<and> (2::nat) < length (fPrevV ySkeleton) \<and> retained ySkeleton 2
   \<and> nearestRetained ySkeleton 2 2
   \<and> (\<exists>s'. initCompressed ySkeleton = Some s'
         \<and> fcMapV s' = [0, -1, 1, -1, 2]
         \<and> cPrevV s' = [-1, 0, 0]
         \<and> edges (cGraphV s') = [[1, 2], [0], [0]])"
proof -
  have a: "(2::nat) < length (fPrevV ySkeleton)" "retained ySkeleton 2"
    by (simp_all add: ySkeleton_def retained_def)
  from initCompressed_parent_is_nearest_retained_ancestor [OF treeSkeleton_ySkeleton]
  have "\<exists>s'. initCompressed ySkeleton = Some s'" by blast
  then have "\<exists>s'. initCompressed ySkeleton = Some s'
         \<and> fcMapV s' = [0, -1, 1, -1, 2]
         \<and> cPrevV s' = [-1, 0, 0]
         \<and> edges (cGraphV s') = [[1, 2], [0], [0]]"
    by (simp add: initCompressed_ySkeleton) (simp add: yCompressed_def ySkeleton_def)
  with treeSkeleton_ySkeleton a nearestRetained_ySkeleton show ?thesis by blast
qed

section \<open>initCompressed: bone lengths\<close>










section \<open>initCompressed: fractions\<close>




lemma hitsOf_set:
  assumes "(p, t) \<in> set (hitsOf inTriangle rayParam isec pt tris)"
  shows "t \<in> set tris \<and> inTriangle t (vdot pt (v1 isec), vdot pt (v2 isec))
     \<and> (\<exists>a. rayParam t pt = Some a \<and> p = vadd pt (vscale (dir isec) a))"
proof -
  let ?f = "\<lambda>t'. if inTriangle t' (vdot pt (v1 isec), vdot pt (v2 isec))
                       then (case rayParam t' pt of
                               None \<Rightarrow> []
                             | Some a \<Rightarrow> [(vadd pt (vscale (dir isec) a), t')])
                       else []"
  from assms have "(p, t) \<in> set (concat (map ?f tris))" unfolding hitsOf_def .
  then obtain t' where t': "t' \<in> set tris" and m: "(p, t) \<in> set (?f t')"
    unfolding set_concat set_map by blast
  from m have i: "inTriangle t' (vdot pt (v1 isec), vdot pt (v2 isec))"
    by (cases "inTriangle t' (vdot pt (v1 isec), vdot pt (v2 isec))") simp_all
  with m obtain a where a: "rayParam t' pt = Some a" "(p, t) = (vadd pt (vscale (dir isec) a), t')"
    by (cases "rayParam t' pt") simp_all
  from a(2) have "p = vadd pt (vscale (dir isec) a)" "t = t'" by simp_all
  with t' i a(1) show ?thesis by blast
qed

section \<open>Intersector\<close>

text \<open>
  Claim C8. Whenever the query returns, the returned points are sorted by their signed
  distance along \<open>dir\<close> from the query point, near to far; \<^verbatim>\<open>outIndices\<close> has one entry per
  point, and the \<open>k\<close>-th entry is the index of the triangle that the \<open>k\<close>-th point comes
  from: a triangle of the cell that contains the projected query point and whose hit
  parameter gives that point.
\<close>

theorem intersect_sorted_by_signed_distance:
  assumes "intersect getIndex inTriangle rayParam isec pt = Some (ps, idx)"
  shows "sorted (map (signedDistance (dir isec) pt) ps)
     \<and> length idx = length ps
     \<and> (\<forall>k < length ps.
           inTriangle (idx ! k) (vdot pt (v1 isec), vdot pt (v2 isec))
         \<and> (\<exists>a. rayParam (idx ! k) pt = Some a \<and> ps ! k = vadd pt (vscale (dir isec) a))
         \<and> (\<exists>tris. vget (triangles isec) (getIndex (vdot pt (v1 isec), vdot pt (v2 isec))) = Some tris
                \<and> idx ! k \<in> set tris))"
proof (cases "rectContains (bounds isec) (vdot pt (v1 isec), vdot pt (v2 isec))")
  case False
  with assms show ?thesis by (simp add: intersect_def)
next
  case True
  let ?pt2 = "(vdot pt (v1 isec), vdot pt (v2 isec))"
  let ?key = "\<lambda>h::vec3 \<times> int. signedDistance (dir isec) pt (fst h)"
  from assms True obtain tris where tris: "vget (triangles isec) (getIndex ?pt2) = Some tris"
    and ps: "ps = map fst (sort_key ?key (hitsOf inTriangle rayParam isec pt tris))"
    and idx: "idx = map snd (sort_key ?key (hitsOf inTriangle rayParam isec pt tris))"
    by (auto simp: intersect_def Let_def split: bind_splits)
  let ?hs = "sort_key ?key (hitsOf inTriangle rayParam isec pt tris)"
  have "sorted (map ?key ?hs)" by (rule sorted_sort_key)
  then have 1: "sorted (map (signedDistance (dir isec) pt) ps)"
    unfolding ps by (simp add: o_def)
  have 2: "length idx = length ps" unfolding ps idx by simp
  have 3: "inTriangle (idx ! k) ?pt2
         \<and> (\<exists>a. rayParam (idx ! k) pt = Some a \<and> ps ! k = vadd pt (vscale (dir isec) a))
         \<and> (\<exists>tris. vget (triangles isec) (getIndex ?pt2) = Some tris \<and> idx ! k \<in> set tris)"
    if k: "k < length ps" for k
  proof -
    from k have kl: "k < length ?hs" unfolding ps by simp
    then have "?hs ! k \<in> set ?hs" by (rule nth_mem)
    then have "(ps ! k, idx ! k) \<in> set (hitsOf inTriangle rayParam isec pt tris)"
      using kl unfolding ps idx by simp
    from hitsOf_set [OF this] tris show ?thesis by blast
  qed
  from 1 2 3 show ?thesis by blast
qed

theorem intersect_sorted_by_signed_distance_witness:
  "intersect (\<lambda>p. 0) (\<lambda>t p. True) cubeRayParam cubeIntersector (Vec3 0 0 (-5))
     = Some ([Vec3 0 0 (-1/2), Vec3 0 0 (1/2)], [3, 0])
   \<and> sorted (map (signedDistance (dir cubeIntersector) (Vec3 0 0 (-5)))
               [Vec3 0 0 (-1/2), Vec3 0 0 (1/2)])"
proof -
  have run: "intersect (\<lambda>p. 0) (\<lambda>t p. True) cubeRayParam cubeIntersector (Vec3 0 0 (-5))
     = Some ([Vec3 0 0 (-1/2), Vec3 0 0 (1/2)], [3, 0])"
    by (simp add: intersect_def hitsOf_def cubeIntersector_def cubeRayParam_def rectContains_def
        signedDistance_def)
  from intersect_sorted_by_signed_distance [OF run] run show ?thesis by blast
qed

section \<open>The construction calls build such skeletons\<close>






lemma makeSymmetric_built:
  assumes b: "built s" and p: "jointNames s name1 = Some i1" "jointNames s name2 = Some i2"
  shows "\<exists>s'. makeSymmetric name1 name2 s = Some s' \<and> built s' \<and> fPrevV s' = fPrevV s"
proof -
  let ?n = "length (fPrevV s)"
  from b have ts: "treeSkeleton s" and ef: "edgesFromParents s" and no: "namesOk s"
    unfolding built_def by simp_all
  from ts have l: "length (fSymV s) = ?n"
    and sy: "\<forall>i < length (fSymV s). fSymV s ! i < int ?n"
    unfolding treeSkeleton_def by simp_all
  from no p have r: "0 \<le> i1" "i1 < int ?n" "0 \<le> i2" "i2 < int ?n"
    unfolding namesOk_def l [symmetric] by blast+
  let ?s' = "s\<lparr>fSymV := (fSymV s)[nat (max i1 i2) := min i1 i2]\<rparr>"
  have run: "makeSymmetric name1 name2 s = Some ?s'"
    using p r l by (auto simp: makeSymmetric_def lookupName_def max_def min_def)
  have sy': "\<forall>i < length (fSymV ?s'). fSymV ?s' ! i < int ?n"
  proof (intro allI impI)
    fix i assume i: "i < length (fSymV ?s')"
    show "fSymV ?s' ! i < int ?n"
    proof (cases "i = nat (max i1 i2)")
      case True
      with i r show ?thesis by (simp add: min_def)
    next
      case False
      with i sy show ?thesis by simp
    qed
  qed
  have "treeSkeleton ?s'" using ts sy' unfolding treeSkeleton_def by simp
  moreover have "edgesFromParents ?s'" using ef unfolding edgesFromParents_def by simp
  moreover have "namesOk ?s'" using no unfolding namesOk_def by simp
  ultimately show ?thesis using run unfolding built_def by simp
qed

section \<open>Unknown and duplicate names\<close>

text \<open>
  Claim C3 fails: \<open>makeJoint\<close> with a parent name that was never added returns normally.
  On the small skeleton, whose registry has no \<open>ghost\<close>, the new joint is stored with
  parent 0.
\<close>

theorem makeJoint_unknown_parent_counterexample:
  "jointNames ySkeleton ''ghost'' = None
   \<and> map_option fPrevV (makeJoint ''f'' (Vec3 0 0 0) ''ghost'' ySkeleton) = Some [-1, 0, 1, 0, 3, 0]"
  by (simp add: ySkeleton_def makeJoint_def lookupName_def resize_def)

text \<open>
  Claim C3, amended. On a skeleton whose registry holds only indices of joints (as it
  does after any sequence of construction calls that returned), no construction call
  reports anything, whatever the names.

  \<open>makeJoint name pos previous\<close> always returns, and the state it returns is the one
  written out below: the joint is appended with the index \<open>cur\<close>, the name is bound to
  \<open>cur\<close> whether or not it was bound before, and the parent of the joint is \<open>-1\<close> for the
  empty parent name, the joint itself when the parent name is the joint's own name, the
  registered index for a registered parent name, and 0 for an unknown parent name, which
  is then registered with the index 0.

  \<open>makeSymmetric name1 name2\<close> returns when the skeleton has a joint: an unknown name is
  registered with the index 0 and counts as joint 0, and the smaller of the two indices
  is stored as the partner of the larger. On a skeleton without joints the write to
  \<^verbatim>\<open>fSymV\<close> is out of range.
\<close>

theorem construction_calls_do_not_fail:
  assumes "namesOk s"
  shows "(let cur = int (length (fSymV s));
              parent = (if previous = [] then -1 else if previous = name then cur
                        else registered s previous);
              es = resize (edges (fGraphV s)) (Suc (length (fSymV s))) [];
              es1 = es[nat cur := es ! nat cur @ [parent]]
          in makeJoint name pos previous s =
               Some (s\<lparr>fSymV := fSymV s @ [-1],
                       fGraphV := \<lparr>verts = verts (fGraphV s) @ [vscale pos 0.5],
                                   edges = (if previous = [] then es
                                            else es1[nat parent := es1 ! nat parent @ [cur]])\<rparr>,
                       jointNames :=
                         (if previous \<noteq> [] \<and> previous \<noteq> name \<and> jointNames s previous = None
                          then (jointNames s)(name \<mapsto> cur, previous \<mapsto> 0)
                          else (jointNames s)(name \<mapsto> cur)),
                       fPrevV := fPrevV s @ [parent]\<rparr>))
   \<and> (\<exists>s'. makeJoint name pos previous s = Some s' \<and> namesOk s')
   \<and> (fSymV s \<noteq> [] \<longrightarrow>
        makeSymmetric name1 name2 s =
          Some (s\<lparr>jointNames := (\<lambda>k. if (k = name1 \<or> k = name2) \<and> jointNames s k = None
                                     then Some 0 else jointNames s k),
                  fSymV := (fSymV s)[nat (max (registered s name1) (registered s name2))
                                       := min (registered s name1) (registered s name2)]\<rparr>)
      \<and> makeSymmetric name2 name1 s = makeSymmetric name1 name2 s
      \<and> (\<exists>s'. makeSymmetric name1 name2 s = Some s' \<and> namesOk s'))
   \<and> (fSymV s = [] \<longrightarrow> makeSymmetric name1 name2 s = None)"
proof (intro conjI impI)
  let ?cur = "int (length (fSymV s))"
  have g: "g\<lparr>verts := v, edges := e\<rparr> = \<lparr>verts = v, edges = e\<rparr>" for g :: ptgraph and v e
    by (cases g) simp
  have su: "nat (int n + 1) = Suc n" for n by simp
  have reg: "0 \<le> registered s k \<and> registered s k < ?cur" if "fSymV s \<noteq> []" for k
    using assms that unfolding namesOk_def registered_def
    by (cases "jointNames s k") auto
  have reg': "0 \<le> registered s k \<and> registered s k \<le> ?cur" for k
    using assms unfolding namesOk_def registered_def
    by (cases "jointNames s k") (auto, fastforce)
  show "let cur = int (length (fSymV s));
              parent = (if previous = [] then -1 else if previous = name then cur
                        else registered s previous);
              es = resize (edges (fGraphV s)) (Suc (length (fSymV s))) [];
              es1 = es[nat cur := es ! nat cur @ [parent]]
          in makeJoint name pos previous s =
               Some (s\<lparr>fSymV := fSymV s @ [-1],
                       fGraphV := \<lparr>verts = verts (fGraphV s) @ [vscale pos 0.5],
                                   edges = (if previous = [] then es
                                            else es1[nat parent := es1 ! nat parent @ [cur]])\<rparr>,
                       jointNames :=
                         (if previous \<noteq> [] \<and> previous \<noteq> name \<and> jointNames s previous = None
                          then (jointNames s)(name \<mapsto> cur, previous \<mapsto> 0)
                          else (jointNames s)(name \<mapsto> cur)),
                       fPrevV := fPrevV s @ [parent]\<rparr>)"
  proof (cases "previous = []")
    case True
    then show ?thesis by (simp add: makeJoint_def Let_def g su)
  next
    case False
    note ne = this
    show ?thesis
    proof (cases "previous = name")
      case True
      with ne show ?thesis
        by (simp add: makeJoint_def Let_def lookupName_def g su)
    next
      case False
      show ?thesis
      proof (cases "jointNames s previous")
        case None
        with ne False show ?thesis
          by (simp add: makeJoint_def Let_def lookupName_def registered_def g su)
      next
        case (Some p)
        with reg' [of previous] have "0 \<le> p" "p \<le> ?cur" by (simp_all add: registered_def)
        with Some ne False show ?thesis
          by (simp add: makeJoint_def Let_def lookupName_def registered_def g su)
      qed
    qed
  qed
  from makeJoint_ok [OF assms, of name pos previous]
  show "\<exists>s'. makeJoint name pos previous s = Some s' \<and> namesOk s'" by blast
next
  assume ne: "fSymV s \<noteq> []"
  have reg: "0 \<le> registered s k \<and> registered s k < int (length (fSymV s))" for k
    using assms ne unfolding namesOk_def registered_def
    by (cases "jointNames s k") auto
  have m: "makeSymmetric a b s =
          Some (s\<lparr>jointNames := (\<lambda>k. if (k = a \<or> k = b) \<and> jointNames s k = None
                                     then Some 0 else jointNames s k),
                  fSymV := (fSymV s)[nat (max (registered s a) (registered s b))
                                       := min (registered s a) (registered s b)]\<rparr>)" for a b
  proof -
    have n: "(\<lambda>k. if (k = a \<or> k = b) \<and> jointNames s k = None then Some 0 else jointNames s k)
        = snd (lookupName (snd (lookupName (jointNames s) a)) b)"
      by (rule ext) (auto simp: lookupName_def split: option.splits)
    have i1: "fst (lookupName (jointNames s) a) = registered s a"
      by (simp add: lookupName_def registered_def split: option.splits)
    have i2: "fst (lookupName (snd (lookupName (jointNames s) a)) b) = registered s b"
      by (auto simp: lookupName_def registered_def split: option.splits)
    show ?thesis
      unfolding n using reg [of a] reg [of b] i1 i2
      by (auto simp: makeSymmetric_def Let_def split_beta max_def min_def)
  qed
  show "makeSymmetric name1 name2 s =
          Some (s\<lparr>jointNames := (\<lambda>k. if (k = name1 \<or> k = name2) \<and> jointNames s k = None
                                     then Some 0 else jointNames s k),
                  fSymV := (fSymV s)[nat (max (registered s name1) (registered s name2))
                                       := min (registered s name1) (registered s name2)]\<rparr>)"
    by (rule m)
  have "(\<lambda>k. if (k = name2 \<or> k = name1) \<and> jointNames s k = None then Some 0 else jointNames s k)
      = (\<lambda>k. if (k = name1 \<or> k = name2) \<and> jointNames s k = None then Some 0 else jointNames s k)"
    by (rule ext) auto
  then show "makeSymmetric name2 name1 s = makeSymmetric name1 name2 s"
    unfolding m by (simp add: max.commute min.commute)
  have "namesOk (s\<lparr>jointNames := (\<lambda>k. if (k = name1 \<or> k = name2) \<and> jointNames s k = None
                                     then Some 0 else jointNames s k),
                  fSymV := (fSymV s)[nat (max (registered s name1) (registered s name2))
                                       := min (registered s name1) (registered s name2)]\<rparr>)"
    using assms ne unfolding namesOk_def by (auto split: if_splits)
  then show "\<exists>s'. makeSymmetric name1 name2 s = Some s' \<and> namesOk s'"
    unfolding m by simp
next
  assume "fSymV s = []"
  then show "makeSymmetric name1 name2 s = None"
    by (simp add: makeSymmetric_def Let_def split_beta vput_def)
qed

theorem construction_calls_do_not_fail_witness:
  "namesOk ySkeleton \<and> fSymV ySkeleton \<noteq> []
   \<and> jointNames ySkeleton ''ghost'' = None \<and> jointNames ySkeleton ''e'' = Some 4
   \<and> map_option fPrevV (makeJoint ''f'' (Vec3 2 4 6) ''ghost'' ySkeleton) = Some [-1, 0, 1, 0, 3, 0]
   \<and> map_option (\<lambda>s. jointNames s ''ghost'') (makeJoint ''f'' (Vec3 2 4 6) ''ghost'' ySkeleton)
       = Some (Some 0)
   \<and> map_option fPrevV (makeJoint ''f'' (Vec3 2 4 6) ''f'' ySkeleton) = Some [-1, 0, 1, 0, 3, 5]
   \<and> map_option (\<lambda>s. edges (fGraphV s)) (makeJoint ''f'' (Vec3 2 4 6) ''f'' ySkeleton)
       = Some [[1, 3], [0, 2], [1], [0, 4], [3], [5, 5]]
   \<and> map_option fPrevV (makeJoint ''e'' (Vec3 2 4 6) ''b'' ySkeleton) = Some [-1, 0, 1, 0, 3, 1]
   \<and> map_option (\<lambda>s. edges (fGraphV s)) (makeJoint ''e'' (Vec3 2 4 6) ''b'' ySkeleton)
       = Some [[1, 3], [0, 2, 5], [1], [0, 4], [3], [1]]
   \<and> map_option (\<lambda>s. jointNames s ''e'') (makeJoint ''e'' (Vec3 2 4 6) ''b'' ySkeleton)
       = Some (Some 5)
   \<and> map_option fSymV (makeSymmetric ''ghost'' ''e'' ySkeleton) = Some [-1, -1, -1, -1, 0]
   \<and> map_option (\<lambda>s. jointNames s ''ghost'') (makeSymmetric ''ghost'' ''e'' ySkeleton)
       = Some (Some 0)"
proof -
  have no: "namesOk ySkeleton"
    by (auto simp: namesOk_def ySkeleton_def split: if_splits)
  have h: "fSymV ySkeleton \<noteq> []" "jointNames ySkeleton ''ghost'' = None"
    "jointNames ySkeleton ''e'' = Some 4" "jointNames ySkeleton ''b'' = Some 1"
    "fSymV ySkeleton = [-1, -1, -1, -1, 2]" "fPrevV ySkeleton = [-1, 0, 1, 0, 3]"
    "edges (fGraphV ySkeleton) = [[1, 3], [0, 2], [1], [0, 4], [3]]"
    by (simp_all add: ySkeleton_def)
  have r: "registered ySkeleton ''ghost'' = 0" "registered ySkeleton ''e'' = 4"
    "registered ySkeleton ''b'' = 1"
    by (simp_all add: registered_def h)
  have 1: "map_option fPrevV (makeJoint ''f'' (Vec3 2 4 6) ''ghost'' ySkeleton) = Some [-1, 0, 1, 0, 3, 0]
     \<and> map_option (\<lambda>s. jointNames s ''ghost'') (makeJoint ''f'' (Vec3 2 4 6) ''ghost'' ySkeleton)
       = Some (Some 0)"
    using construction_calls_do_not_fail [OF no, of "''ghost''" "''f''" "Vec3 2 4 6" "[]" "[]"]
    by (simp add: Let_def h r)
  have 2: "map_option fPrevV (makeJoint ''f'' (Vec3 2 4 6) ''f'' ySkeleton) = Some [-1, 0, 1, 0, 3, 5]
     \<and> map_option (\<lambda>s. edges (fGraphV s)) (makeJoint ''f'' (Vec3 2 4 6) ''f'' ySkeleton)
       = Some [[1, 3], [0, 2], [1], [0, 4], [3], [5, 5]]"
    using construction_calls_do_not_fail [OF no, of "''f''" "''f''" "Vec3 2 4 6" "[]" "[]"]
    by (simp add: Let_def h r resize_def)
  have 3: "map_option fPrevV (makeJoint ''e'' (Vec3 2 4 6) ''b'' ySkeleton) = Some [-1, 0, 1, 0, 3, 1]
     \<and> map_option (\<lambda>s. edges (fGraphV s)) (makeJoint ''e'' (Vec3 2 4 6) ''b'' ySkeleton)
       = Some [[1, 3], [0, 2, 5], [1], [0, 4], [3], [1]]
     \<and> map_option (\<lambda>s. jointNames s ''e'') (makeJoint ''e'' (Vec3 2 4 6) ''b'' ySkeleton)
       = Some (Some 5)"
    using construction_calls_do_not_fail [OF no, of "''b''" "''e''" "Vec3 2 4 6" "[]" "[]"]
    by (simp add: Let_def h r resize_def)
  have 4: "map_option fSymV (makeSymmetric ''ghost'' ''e'' ySkeleton) = Some [-1, -1, -1, -1, 0]
     \<and> map_option (\<lambda>s. jointNames s ''ghost'') (makeSymmetric ''ghost'' ''e'' ySkeleton)
       = Some (Some 0)"
    using construction_calls_do_not_fail [OF no, of "[]" "[]" "Vec3 2 4 6" "''ghost''" "''e''"]
    by (simp add: Let_def h r)
  from no h(1-3) 1 2 3 4 show ?thesis by blast
qed

section \<open>Runs that can end with a fault\<close>

lemma bindE_Inr [simp]: "bindE (Inr y) f = f y"
  by (simp add: bindE_def)

lemma bindE_Inl [simp]: "bindE (Inl e) f = Inl e"
  by (simp add: bindE_def)

lemma orUndefined_Some [simp]: "orUndefined (Some y) = Inr y"
  by (simp add: orUndefined_def)

lemma orUndefined_None [simp]: "orUndefined None = Inl Undefined"
  by (simp add: orUndefined_def)
















section \<open>scale\<close>




section \<open>Reading a skeleton file\<close>









section \<open>The positions of a skeleton read from a file\<close>




end
